theory Spec2Isabelle
  imports Main
begin

section \<open>Values and the render context\<close>

text \<open>
  \<^verbatim>\<open>InternalValue\<close> is the tagged variant of the engine. The model keeps the variants
  the evaluator and the string filters of \<^verbatim>\<open>expression_evaluator.cpp\<close> and
  \<^verbatim>\<open>string_converter_filter.cpp\<close> inspect: the empty value, booleans, 64-bit integers
  (a mathematical integer, meant between \<open>-2^63\<close> and \<open>2^63 - 1\<close>; the arithmetic on
  them wraps around, see \<open>int64_wrap\<close>), narrow strings, materialised and generated lists,
  map adapters and callables. A callable carries its kind, its type and the identity of its
  body; the bodies themselves are C++ closures and are supplied separately (see
  \<open>Externals\<close>).
  The \<^verbatim>\<open>temporary\<close> flag and the parent reference only decide which storage slot
  holds a result and are not part of the data.
\<close>

datatype CallableKind = GlobalFunc | SpecialFunc | Macro | UserCallable

datatype CallableType = Expression | Statement

datatype InternalValue =
    EmptyValue
  | BoolValue bool
  | IntValue int
  | StringValue string
  | ListAdapter "InternalValue list"
  | GeneratedList nat "nat \<Rightarrow> InternalValue"
  | MapAdapter "(string \<times> InternalValue) list"
  | Callable CallableKind CallableType nat

definition IsEmpty :: "InternalValue \<Rightarrow> bool" where
  "IsEmpty v = (case v of EmptyValue \<Rightarrow> True | _ \<Rightarrow> False)"

text \<open>
  Conditions under which the C++ code leaves defined behaviour and the process stops: an
  unchecked read past the end of a vector or string, a dereference of a null pointer, an
  integer division by zero, and the division of the least 64-bit integer by \<open>-1\<close>, whose
  quotient does not exist (the processor raises the same trap as for a zero divisor).
  \<open>FuelExhausted\<close> is not a behaviour of the program: it marks a loop of the model that
  was cut off by its iteration bound, and is shown never to occur.
\<close>

datatype abort =
  IndexOutOfRange | NullDereference | DivisionByZero | DivisionOverflow | FuelExhausted

text \<open>
  The value an \<^verbatim>\<open>int64_t\<close> holds after an addition, subtraction or multiplication whose
  mathematical result is \<open>x\<close>: the result is reduced modulo \<open>2^64\<close> into the range from
  \<open>-2^63\<close> to \<open>2^63 - 1\<close>. (An overflow of a signed operation is undefined in C++; the
  compiled code wraps around. A conversion from \<^verbatim>\<open>uint64_t\<close> is the same reduction.)
\<close>

definition int64_wrap :: "int \<Rightarrow> int" where
  "int64_wrap x = (x + 2 ^ 63) mod 2 ^ 64 - 2 ^ 63"

text \<open>
  The render context: the stack of scopes (innermost first) and, since callables are
  arbitrary C++ closures, the trace of the effects they have performed so far.
\<close>

record RenderContext =
  scopes :: "(string \<rightharpoonup> InternalValue) list"
  effects :: "string list"

text \<open>
  An \<^verbatim>\<open>ExpressionEvaluatorPtr\<close> is an object with a virtual \<^verbatim>\<open>Evaluate(RenderContext&)\<close>;
  it is modelled by that method: a function from the context to the value and the
  updated context, or to an abort.
\<close>

type_synonym ExpressionEvaluator = "RenderContext \<Rightarrow> abort + (InternalValue \<times> RenderContext)"

text \<open>
  Modelled from the spec: \<^verbatim>\<open>ConstantExpression::Evaluate\<close> is declared in a header that
  is not part of the sources at hand; the spec says it wraps a literal value and evaluation
  returns a copy of it.
\<close>

definition ConstantExpression :: "InternalValue \<Rightarrow> ExpressionEvaluator" where
  "ConstantExpression v = (\<lambda>values. Inr (v, values))"

section \<open>The call-parameter binder\<close>

record ArgumentInfo =
  name :: string
  mandatory :: bool
  defaultVal :: InternalValue

record CallParams =
  kwParams :: "string \<rightharpoonup> ExpressionEvaluator"
  posParams :: "ExpressionEvaluator list"

record ParsedArguments =
  args :: "string \<rightharpoonup> ExpressionEvaluator"
  extraKwArgs :: "string \<rightharpoonup> ExpressionEvaluator"
  extraPosArgs :: "ExpressionEvaluator list"

datatype ArgState = NotFound | NotFoundMandatory | Keyword | Positional | Ignored

text \<open>The local struct \<^verbatim>\<open>ArgInfo\<close>; \<open>info = None\<close> is the null pointer.\<close>

record ArgInfo =
  state :: ArgState
  prevNotFound :: int
  nextNotFound :: int
  info :: "ArgumentInfo option"

definition ArgInfo_init :: ArgInfo where
  "ArgInfo_init = \<lparr>state = NotFound, prevNotFound = -1, nextNotFound = -1, info = None\<rparr>"

text \<open>
  \<^verbatim>\<open>static_cast<std::size_t>\<close> of an \<^verbatim>\<open>int\<close>: a negative value becomes a value
  just below \<open>2^64\<close>.
\<close>

definition size_t_cast :: "int \<Rightarrow> nat" where
  "size_t_cast i = (if 0 \<le> i then nat i else nat (2 ^ 64 + i))"

text \<open>
  First loop of \<^verbatim>\<open>ParseCallParamsImpl\<close> (``find all provided keyword args''): one
  round of its body. The loop's variables are the vector \<^verbatim>\<open>argsInfo\<close>,
  \<^verbatim>\<open>result.args\<close>, \<^verbatim>\<open>argIdx\<close>, \<^verbatim>\<open>firstMandatoryIdx\<close> and
  \<^verbatim>\<open>prevNotFound\<close>. The counter \<^verbatim>\<open>foundKwArgs\<close> is never read and is left out.
  \<^verbatim>\<open>argIdx\<close> counts the elements of \<^verbatim>\<open>args\<close> visited so far and the vector has
  \<^verbatim>\<open>args.size()\<close> elements, so the writes at \<^verbatim>\<open>argIdx\<close> are in range.
\<close>

type_synonym KwScan =
  "ArgInfo list \<times> (string \<rightharpoonup> ExpressionEvaluator) \<times> nat \<times> int \<times> int"

fun FindKwArgs_body :: "ArgumentInfo \<Rightarrow> CallParams \<Rightarrow> KwScan \<Rightarrow> KwScan" where
  "FindKwArgs_body argInfo params (argsInfo, res, argIdx, firstMandatoryIdx, prevNF) =
     (let argsInfo1 = argsInfo[argIdx := (argsInfo ! argIdx)\<lparr>info := Some argInfo\<rparr>] in
      if name argInfo = ''*args'' \<or> name argInfo = ''**kwargs'' then
        (argsInfo1[argIdx := (argsInfo1 ! argIdx)\<lparr>state := Ignored\<rparr>],
         res, argIdx + 1, firstMandatoryIdx, prevNF)
      else
        (case kwParams params (name argInfo) of
           Some p \<Rightarrow>
             (argsInfo1[argIdx := (argsInfo1 ! argIdx)\<lparr>state := Keyword\<rparr>],
              res(name argInfo \<mapsto> p), argIdx + 1, firstMandatoryIdx, prevNF)
         | None \<Rightarrow>
             (let argsInfo2 =
                    (if mandatory argInfo
                     then argsInfo1[argIdx := (argsInfo1 ! argIdx)\<lparr>state := NotFoundMandatory\<rparr>]
                     else argsInfo1[argIdx := (argsInfo1 ! argIdx)\<lparr>state := NotFound\<rparr>]);
                  firstMandatoryIdx' =
                    (if mandatory argInfo \<and> firstMandatoryIdx = -1 then int argIdx
                     else firstMandatoryIdx);
                  argsInfo3 =
                    (if prevNF \<noteq> -1
                     then argsInfo2[nat prevNF := (argsInfo2 ! nat prevNF)\<lparr>nextNotFound := int argIdx\<rparr>]
                     else argsInfo2);
                  argsInfo4 = argsInfo3[argIdx := (argsInfo3 ! argIdx)\<lparr>prevNotFound := prevNF\<rparr>]
              in (argsInfo4, res, argIdx + 1, firstMandatoryIdx', int argIdx))))"

fun FindKwArgs :: "ArgumentInfo list \<Rightarrow> CallParams \<Rightarrow> KwScan \<Rightarrow> KwScan" where
  "FindKwArgs [] params st = st"
| "FindKwArgs (argInfo # rest) params st = FindKwArgs rest params (FindKwArgs_body argInfo params st)"

text \<open>
  The inner loop of the first round of the window scan: step over slots already bound.
\<close>

function SkipBound :: "ArgInfo list \<Rightarrow> nat \<Rightarrow> nat" where
  "SkipBound argsInfo startPosArg =
     (if startPosArg < length argsInfo \<and>
         (state (argsInfo ! startPosArg) = Keyword \<or> state (argsInfo ! startPosArg) = Positional)
      then SkipBound argsInfo (startPosArg + 1) else startPosArg)"
  by pat_completeness auto
termination
  by (relation "measure (\<lambda>(argsInfo, startPosArg). length argsInfo - startPosArg)") auto

declare SkipBound.simps [simp del]

text \<open>
  Second loop (``determine the range for positional arguments scanning''). One call is one
  test of the loop condition followed by one round of the body and the loop's increment
  expression \<^verbatim>\<open>eatenPosArgs + (argsInfo[startPosArg].state == Ignored ? 0 : 1)\<close>, which
  reads \<^verbatim>\<open>argsInfo[startPosArg]\<close> without a bounds check. The result is the final
  \<^verbatim>\<open>startPosArg\<close> and \<^verbatim>\<open>eatenPosArgs\<close>. The first argument bounds the number
  of rounds.
\<close>

fun ScanWindow ::
  "nat \<Rightarrow> ArgInfo list \<Rightarrow> nat \<Rightarrow> bool \<Rightarrow> nat \<Rightarrow> nat \<Rightarrow> nat \<Rightarrow> abort + (nat \<times> nat)" where
  "ScanWindow 0 argsInfo nPos isFirstTime startPosArg curPosArg eatenPosArgs = Inl FuelExhausted"
| "ScanWindow (Suc fuel) argsInfo nPos isFirstTime startPosArg curPosArg eatenPosArgs =
     (if \<not> (eatenPosArgs < nPos \<and> startPosArg < length argsInfo) then Inr (startPosArg, eatenPosArgs)
      else if isFirstTime then
        (let s = SkipBound argsInfo startPosArg in
         if s < length argsInfo
         then ScanWindow fuel argsInfo nPos False s curPosArg
                (eatenPosArgs + (if state (argsInfo ! s) = Ignored then 0 else 1))
         else Inl IndexOutOfRange)
      else
        (let p = prevNotFound (argsInfo ! startPosArg) in
         if p \<noteq> -1 then
           (let s = size_t_cast p in
            if s < length argsInfo
            then ScanWindow fuel argsInfo nPos False s curPosArg
                   (eatenPosArgs + (if state (argsInfo ! s) = Ignored then 0 else 1))
            else Inl IndexOutOfRange)
         else if curPosArg = length argsInfo then Inr (startPosArg, eatenPosArgs)
         else if curPosArg < length argsInfo then
           (let nextPosArg = nextNotFound (argsInfo ! curPosArg) in
            if nextPosArg = -1 then Inr (startPosArg, eatenPosArgs)
            else ScanWindow fuel argsInfo nPos False startPosArg (size_t_cast nextPosArg)
                   (eatenPosArgs + (if state (argsInfo ! startPosArg) = Ignored then 0 else 1)))
         else Inl IndexOutOfRange))"

text \<open>
  Third loop (``map positional params to the desired arguments''), with its variables
  \<^verbatim>\<open>idx\<close> and \<^verbatim>\<open>curArg\<close>.
\<close>

function MapPositional ::
  "ExpressionEvaluator list \<Rightarrow> nat \<Rightarrow> nat \<Rightarrow> int \<Rightarrow> ArgInfo list \<Rightarrow>
   (string \<rightharpoonup> ExpressionEvaluator) \<Rightarrow> abort + (ArgInfo list \<times> (string \<rightharpoonup> ExpressionEvaluator))" where
  "MapPositional pos eatenPosArgs idx curArg argsInfo res =
     (if idx < eatenPosArgs \<and> curArg \<noteq> -1 \<and> size_t_cast curArg < length argsInfo then
        (let c = size_t_cast curArg; a = argsInfo ! c in
         if state a = Ignored
         then MapPositional pos eatenPosArgs (idx + 1) (nextNotFound a) argsInfo res
         else
           (case info a of
              None \<Rightarrow> Inl NullDereference
            | Some ai \<Rightarrow>
                if idx < length pos
                then MapPositional pos eatenPosArgs (idx + 1) (nextNotFound a)
                       (argsInfo[c := a\<lparr>state := Positional\<rparr>]) (res(name ai \<mapsto> pos ! idx))
                else Inl IndexOutOfRange))
      else Inr (argsInfo, res))"
  by pat_completeness auto
termination
  by (relation "measure (\<lambda>(pos, eatenPosArgs, idx, curArg, argsInfo, res). eatenPosArgs - idx)") auto

declare MapPositional.simps [simp del]

text \<open>
  Fourth loop (``fill default arguments (if missing) and check for mandatory''), with
  \<^verbatim>\<open>result.args\<close> and \<^verbatim>\<open>isSucceeded\<close> as its variables.
\<close>

fun FillDefaults ::
  "ArgInfo list \<Rightarrow> (string \<rightharpoonup> ExpressionEvaluator) \<Rightarrow> bool \<Rightarrow>
   abort + ((string \<rightharpoonup> ExpressionEvaluator) \<times> bool)" where
  "FillDefaults [] res isSucceeded = Inr (res, isSucceeded)"
| "FillDefaults (argInfo # rest) res isSucceeded =
     (case state argInfo of
        Positional \<Rightarrow> FillDefaults rest res isSucceeded
      | Keyword \<Rightarrow> FillDefaults rest res isSucceeded
      | Ignored \<Rightarrow> FillDefaults rest res isSucceeded
      | NotFound \<Rightarrow>
          (case info argInfo of
             None \<Rightarrow> Inl NullDereference
           | Some ai \<Rightarrow>
               if \<not> IsEmpty (defaultVal ai)
               then FillDefaults rest (res(name ai \<mapsto> ConstantExpression (defaultVal ai))) isSucceeded
               else FillDefaults rest res isSucceeded)
      | NotFoundMandatory \<Rightarrow> FillDefaults rest res False)"

text \<open>
  \<^verbatim>\<open>ParseCallParamsImpl\<close>: the four loops, then the extra keyword and positional
  arguments. The result pairs the \<^verbatim>\<open>ParsedArguments\<close> with \<^verbatim>\<open>isSucceeded\<close>.
\<close>

definition ParseCallParamsImpl ::
  "ArgumentInfo list \<Rightarrow> CallParams \<Rightarrow> abort + (ParsedArguments \<times> bool)" where
  "ParseCallParamsImpl argInfos params =
     (case FindKwArgs argInfos params
             (replicate (length argInfos) ArgInfo_init, Map.empty, 0, -1, -1) of
        (argsInfo, res, argIdx, firstMandatoryIdx, prevNF) \<Rightarrow>
          (let startPosArg = (if firstMandatoryIdx = -1 then 0 else size_t_cast firstMandatoryIdx) in
           case ScanWindow (2 * length argInfos + 2) argsInfo (length (posParams params)) True
                  startPosArg startPosArg 0 of
             Inl e \<Rightarrow> Inl e
           | Inr (startPosArg', eatenPosArgs) \<Rightarrow>
               (case MapPositional (posParams params) eatenPosArgs 0 (int startPosArg') argsInfo res of
                  Inl e \<Rightarrow> Inl e
                | Inr (argsInfo', res') \<Rightarrow>
                    (case FillDefaults argsInfo' res' True of
                       Inl e \<Rightarrow> Inl e
                     | Inr (res'', isSucceeded) \<Rightarrow>
                         Inr (\<lparr>args = res'',
                               extraKwArgs = (\<lambda>k. case res'' k of Some _ \<Rightarrow> None
                                                   | None \<Rightarrow> kwParams params k),
                               extraPosArgs = drop eatenPosArgs (posParams params)\<rparr>,
                              isSucceeded)))))"

text \<open>
  \<^verbatim>\<open>ParseCallParams\<close>: both overloads (initializer list and vector) forward to
  \<^verbatim>\<open>ParseCallParamsImpl\<close>.
\<close>

definition ParseCallParams ::
  "ArgumentInfo list \<Rightarrow> CallParams \<Rightarrow> abort + (ParsedArguments \<times> bool)" where
  "ParseCallParams argInfos params = ParseCallParamsImpl argInfos params"

section \<open>Collaborators that are not part of the sources at hand\<close>

datatype BinaryOperation =
    LogicalAnd | LogicalOr | LogicalEq | LogicalNe | LogicalGt | LogicalLt | LogicalGe | LogicalLe
  | In | PlusOp | Minus | Mul | Div | DivReminder | DivInteger | Pow | StringConcat

text \<open>
  An \<^verbatim>\<open>OutStream\<close> is the sequence of values written to it so far.
\<close>

type_synonym OutStream = "InternalValue list"

text \<open>
  The functions the evaluator and the filters call but whose code lives in other files:
  the subscript operation, the binary math visitor, the \<^verbatim>\<open>in\<close> tester (built in the
  constructor of \<^verbatim>\<open>BinaryExpression\<close> from the right operand), the renderer callback's
  string conversion, the conversions of the variants for which the spec gives no rule, and
  the bodies of the callables, looked up by the identity stored in the value. They are
  parameters of the model: what is proved holds for every choice of them.
\<close>

record Externals =
  Subscript :: "InternalValue \<Rightarrow> InternalValue \<Rightarrow> RenderContext \<Rightarrow> InternalValue"
  BinaryMathOperation :: "BinaryOperation \<Rightarrow> InternalValue \<Rightarrow> InternalValue \<Rightarrow> InternalValue"
  InTesterTest :: "ExpressionEvaluator \<Rightarrow> InternalValue \<Rightarrow> RenderContext \<Rightarrow> abort + (bool \<times> RenderContext)"
  GetAsTargetString :: "InternalValue \<Rightarrow> string"
  ParseInt :: "string \<Rightarrow> int option"
  OtherToBool :: "InternalValue \<Rightarrow> bool"
  OtherToString :: "InternalValue \<Rightarrow> string option"
  ExpressionCallable :: "nat \<Rightarrow> CallParams \<Rightarrow> RenderContext \<Rightarrow> abort + (InternalValue \<times> RenderContext)"
  StatementCallable :: "nat \<Rightarrow> CallParams \<Rightarrow> OutStream \<Rightarrow> RenderContext \<Rightarrow> abort + (OutStream \<times> RenderContext)"

text \<open>
  Modelled from the spec: \<^verbatim>\<open>ConvertToBool\<close> and \<^verbatim>\<open>ConvertToInt\<close> (declared in
  \<^verbatim>\<open>internal_value.h\<close>, absent here). The spec gives: empty to the default, a boolean to
  0 or 1, a number to itself, a string parsed or else the default, a container to its
  non-emptiness. Where the spec gives no rule the conversion is left to \<open>Externals\<close>
  (for a boolean) or yields the default (for an integer).
\<close>

definition ConvertToBool :: "Externals \<Rightarrow> InternalValue \<Rightarrow> bool" where
  "ConvertToBool ext v =
     (case v of
        EmptyValue \<Rightarrow> False
      | BoolValue b \<Rightarrow> b
      | IntValue i \<Rightarrow> i \<noteq> 0
      | ListAdapter xs \<Rightarrow> xs \<noteq> []
      | GeneratedList n f \<Rightarrow> n \<noteq> 0
      | MapAdapter m \<Rightarrow> m \<noteq> []
      | _ \<Rightarrow> OtherToBool ext v)"

definition ConvertToInt :: "Externals \<Rightarrow> InternalValue \<Rightarrow> int \<Rightarrow> int" where
  "ConvertToInt ext v def =
     (case v of
        EmptyValue \<Rightarrow> def
      | BoolValue b \<Rightarrow> (if b then 1 else 0)
      | IntValue i \<Rightarrow> i
      | StringValue s \<Rightarrow> (case ParseInt ext s of Some i \<Rightarrow> i | None \<Rightarrow> def)
      | _ \<Rightarrow> def)"

text \<open>
  Modelled from the spec: the visitor \<^verbatim>\<open>IntegerEvaluator\<close> (\<^verbatim>\<open>value_visitors.h\<close>, absent
  here) coerces any value to a 64-bit integer and returns 0 for what it cannot represent.
\<close>

definition IntegerEvaluator :: "Externals \<Rightarrow> InternalValue \<Rightarrow> int" where
  "IntegerEvaluator ext v = ConvertToInt ext v 0"

text \<open>
  Modelled from the spec: \<^verbatim>\<open>GetAsSameString\<close> (\<^verbatim>\<open>value_helpers.h\<close>, absent here) returns
  an optional string of the width of the source; the filters fall back to the empty string
  with \<^verbatim>\<open>value_or\<close>.
\<close>

definition GetAsSameString :: "Externals \<Rightarrow> InternalValue \<Rightarrow> string option" where
  "GetAsSameString ext v = (case v of StringValue s \<Rightarrow> Some s | _ \<Rightarrow> OtherToString ext v)"

text \<open>
  Modelled from the spec: \<^verbatim>\<open>RenderContext::FindValue\<close> searches the scopes top-down and
  returns the entry of the first scope that contains the name, with a found-flag;
  \<open>None\<close> is \<^verbatim>\<open>found = false\<close>.
\<close>

fun FindValue :: "(string \<rightharpoonup> InternalValue) list \<Rightarrow> string \<Rightarrow> InternalValue option" where
  "FindValue [] valueName = None"
| "FindValue (scope # rest) valueName =
     (case scope valueName of Some v \<Rightarrow> Some v | None \<Rightarrow> FindValue rest valueName)"

text \<open>
  Modelled from the spec: \<^verbatim>\<open>MapAdapter::GetValueByName\<close> returns the value stored under
  the key, or the empty value.
\<close>

definition GetValueByName :: "(string \<times> InternalValue) list \<Rightarrow> string \<Rightarrow> InternalValue" where
  "GetValueByName m key = (case map_of m key of Some v \<Rightarrow> v | None \<Rightarrow> EmptyValue)"

text \<open>
  The identifiers of the special functions are enumerators of \<^verbatim>\<open>expression_evaluator.h\<close>
  (absent here); the evaluator only compares them.
\<close>

definition InvalidFn :: int where "InvalidFn = -1"

definition RangeFn :: int where "RangeFn = 1"

definition LoopCycleFn :: int where "LoopCycleFn = 2"

section \<open>Expression nodes\<close>

definition andThen :: "abort + 'a \<Rightarrow> ('a \<Rightarrow> abort + 'b) \<Rightarrow> abort + 'b" where
  "andThen m f = (case m of Inl e \<Rightarrow> Inl e | Inr x \<Rightarrow> f x)"

text \<open>\<^verbatim>\<open>ValueRefExpression::Evaluate\<close>: the value found under the name, or the empty value.\<close>

definition ValueRefExpression :: "string \<Rightarrow> ExpressionEvaluator" where
  "ValueRefExpression m_valueName values =
     (case FindValue (scopes values) m_valueName of
        Some v \<Rightarrow> Inr (v, values)
      | None \<Rightarrow> Inr (EmptyValue, values))"

text \<open>\<^verbatim>\<open>SetupGlobals\<close> binds the name \<^verbatim>\<open>range\<close> to the identifier of the range function.\<close>

definition SetupGlobals :: "(string \<rightharpoonup> InternalValue) \<Rightarrow> (string \<rightharpoonup> InternalValue)" where
  "SetupGlobals globalParams = globalParams(''range'' \<mapsto> IntValue RangeFn)"

text \<open>
  \<^verbatim>\<open>BinaryExpression::Evaluate\<close>. Both branches of the choice of \<^verbatim>\<open>result\<close> yield a
  temporary value whose data is then overwritten, so the model returns the data.
\<close>

definition BinaryExpression_Evaluate ::
  "Externals \<Rightarrow> BinaryOperation \<Rightarrow> ExpressionEvaluator \<Rightarrow> ExpressionEvaluator \<Rightarrow> ExpressionEvaluator" where
  "BinaryExpression_Evaluate ext m_oper m_leftExpr m_rightExpr context =
     andThen (m_leftExpr context) (\<lambda>(leftVal, c1).
     andThen (if m_oper = In then Inr (EmptyValue, c1) else m_rightExpr c1) (\<lambda>(rightVal, c2).
       case m_oper of
         LogicalAnd \<Rightarrow>
           (let left = ConvertToBool ext leftVal;
                left' = (if left then ConvertToBool ext rightVal else left)
            in Inr (BoolValue left', c2))
       | LogicalOr \<Rightarrow>
           (let left = ConvertToBool ext leftVal;
                left' = (if \<not> left then ConvertToBool ext rightVal else left)
            in Inr (BoolValue left', c2))
       | In \<Rightarrow>
           andThen (InTesterTest ext m_rightExpr leftVal c2) (\<lambda>(b, c3). Inr (BoolValue b, c3))
       | StringConcat \<Rightarrow>
           Inr (StringValue (GetAsTargetString ext leftVal @ GetAsTargetString ext rightVal), c2)
       | _ \<Rightarrow> Inr (BinaryMathOperation ext m_oper leftVal rightVal, c2)))"

text \<open>
  \<^verbatim>\<open>CallExpression::CallGlobalRange\<close>. \<^verbatim>\<open>args["start"]\<close> is a null pointer when the
  name is not bound. \<^verbatim>\<open>start\<close>, \<^verbatim>\<open>stop\<close>, \<^verbatim>\<open>step\<close>, \<^verbatim>\<open>distance\<close> and
  \<^verbatim>\<open>items_count\<close> are \<^verbatim>\<open>int64_t\<close>: the subtraction wraps around, \<open>trunc_div\<close> is the
  division of C++ (rounding toward zero), and the least integer divided by \<open>-1\<close> traps.
  In the generator \<^verbatim>\<open>start + step * idx\<close> is computed in \<^verbatim>\<open>uint64_t\<close> (the type of
  \<^verbatim>\<open>idx\<close>) and cast back to \<^verbatim>\<open>int64_t\<close>.
\<close>

definition trunc_div :: "int \<Rightarrow> int \<Rightarrow> int" where
  "trunc_div a b = (if (a < 0) = (b < 0) then \<bar>a\<bar> div \<bar>b\<bar> else - (\<bar>a\<bar> div \<bar>b\<bar>))"

definition range_schema :: "ArgumentInfo list" where
  "range_schema =
     [\<lparr>name = ''start'', mandatory = False, defaultVal = EmptyValue\<rparr>,
      \<lparr>name = ''stop'', mandatory = True, defaultVal = EmptyValue\<rparr>,
      \<lparr>name = ''step'', mandatory = False, defaultVal = EmptyValue\<rparr>]"

definition EvaluateOrEmpty :: "ExpressionEvaluator option \<Rightarrow> ExpressionEvaluator" where
  "EvaluateOrEmpty e values = (case e of Some ev \<Rightarrow> ev values | None \<Rightarrow> Inr (EmptyValue, values))"

definition CallGlobalRange :: "Externals \<Rightarrow> CallParams \<Rightarrow> ExpressionEvaluator" where
  "CallGlobalRange ext m_params values =
     andThen (ParseCallParams range_schema m_params) (\<lambda>(parsed, isArgsParsed).
       if \<not> isArgsParsed then Inr (EmptyValue, values)
       else
         (let startExpr = args parsed ''start'';
              stopExpr = args parsed ''stop'';
              stepExpr = args parsed ''step''
          in andThen (EvaluateOrEmpty startExpr values) (\<lambda>(startVal, v1).
             andThen (EvaluateOrEmpty stopExpr v1) (\<lambda>(stopVal, v2).
             andThen (EvaluateOrEmpty stepExpr v2) (\<lambda>(stepVal, v3).
               (let start = IntegerEvaluator ext startVal;
                    stop = IntegerEvaluator ext stopVal;
                    step0 = IntegerEvaluator ext stepVal
                in if stepExpr \<noteq> None \<and> step0 = 0 then Inr (EmptyValue, v3)
                   else
                     (let step = (if stepExpr = None then 1 else step0);
                          distance = int64_wrap (stop - start)
                      in if distance = - (2 ^ 63) \<and> step = -1 then Inl DivisionOverflow
                         else
                           (let items_count = trunc_div distance step;
                                items_count' = (if items_count < 0 then 0 else nat items_count)
                            in Inr (GeneratedList items_count'
                                      (\<lambda>idx. IntValue (int64_wrap (start + step * int idx))),
                                    v3)))))))))"

text \<open>
  \<^verbatim>\<open>CallExpression::CallLoopCycle\<close>. \<^verbatim>\<open>GetIf<MapAdapter>\<close> yields a null pointer for a
  value that is not a map adapter, and the pointer is used unchecked. In
  \<^verbatim>\<open>baseIdx % m_params.posParams.size()\<close> the left operand is converted to the unsigned
  64-bit type of the right one, and a zero right operand is a division by zero.
\<close>

definition CallLoopCycle :: "Externals \<Rightarrow> CallParams \<Rightarrow> ExpressionEvaluator" where
  "CallLoopCycle ext m_params values =
     (case FindValue (scopes values) ''loop'' of
        None \<Rightarrow> Inr (EmptyValue, values)
      | Some loopVal \<Rightarrow>
          (case loopVal of
             MapAdapter loop \<Rightarrow>
               (let baseIdx = IntegerEvaluator ext (GetValueByName loop ''index0'') in
                if length (posParams m_params) = 0 then Inl DivisionByZero
                else
                  (let idx = nat (baseIdx mod 2 ^ 64) mod length (posParams m_params)
                   in (posParams m_params ! idx) values))
           | _ \<Rightarrow> Inl NullDereference))"

text \<open>
  \<^verbatim>\<open>GetIf<Callable>\<close> followed by the fallback through
  \<^verbatim>\<open>Subscript(fnVal, "operator()", values)\<close>, as \<^verbatim>\<open>CallArbitraryFn\<close> and
  \<^verbatim>\<open>Render\<close> both do: the kind, type and body identity of the callable, or \<open>None\<close>
  for the null pointer.
\<close>

definition GetIfCallable :: "InternalValue \<Rightarrow> (CallableKind \<times> CallableType \<times> nat) option" where
  "GetIfCallable v = (case v of Callable kind ty body \<Rightarrow> Some (kind, ty, body) | _ \<Rightarrow> None)"

definition ResolveCallable ::
  "Externals \<Rightarrow> InternalValue \<Rightarrow> RenderContext \<Rightarrow> (CallableKind \<times> CallableType \<times> nat) option" where
  "ResolveCallable ext fnVal values =
     (case GetIfCallable fnVal of
        Some c \<Rightarrow> Some c
      | None \<Rightarrow> GetIfCallable (Subscript ext fnVal (StringValue ''operator()'') values))"

text \<open>
  \<^verbatim>\<open>CallExpression::CallArbitraryFn\<close>. A statement callable writes to a stream on a fresh
  string, which becomes the result.
\<close>

definition CallArbitraryFn :: "Externals \<Rightarrow> ExpressionEvaluator \<Rightarrow> CallParams \<Rightarrow> ExpressionEvaluator" where
  "CallArbitraryFn ext m_valueRef m_params values =
     andThen (m_valueRef values) (\<lambda>(fnVal, v1).
       case ResolveCallable ext fnVal v1 of
         None \<Rightarrow> Inr (EmptyValue, v1)
       | Some (kind, ty, body) \<Rightarrow>
           if kind \<noteq> GlobalFunc \<and> kind \<noteq> UserCallable then Inr (EmptyValue, v1)
           else if ty = Expression then ExpressionCallable ext body m_params v1
           else
             andThen (StatementCallable ext body m_params [] v1) (\<lambda>(stream, v2).
               Inr (StringValue (concat (map (GetAsTargetString ext) stream)), v2)))"

text \<open>\<^verbatim>\<open>CallExpression::Evaluate\<close>.\<close>

definition CallExpression_Evaluate ::
  "Externals \<Rightarrow> ExpressionEvaluator \<Rightarrow> CallParams \<Rightarrow> ExpressionEvaluator" where
  "CallExpression_Evaluate ext m_valueRef m_params values =
     andThen (m_valueRef values) (\<lambda>(fn, v1).
       (let fnId = ConvertToInt ext fn InvalidFn in
        if fnId = RangeFn then CallGlobalRange ext m_params v1
        else if fnId = LoopCycleFn then CallLoopCycle ext m_params v1
        else CallArbitraryFn ext m_valueRef m_params v1))"

text \<open>
  \<^verbatim>\<open>CallExpression::Render\<close>; \<^verbatim>\<open>Expression::Render\<close> (the base class) evaluates and
  writes the value.
\<close>

definition CallExpression_Render ::
  "Externals \<Rightarrow> ExpressionEvaluator \<Rightarrow> CallParams \<Rightarrow> OutStream \<Rightarrow> RenderContext \<Rightarrow>
   abort + (OutStream \<times> RenderContext)" where
  "CallExpression_Render ext m_valueRef m_params stream values =
     andThen (m_valueRef values) (\<lambda>(fnVal, v1).
       case ResolveCallable ext fnVal v1 of
         None \<Rightarrow>
           andThen (CallExpression_Evaluate ext m_valueRef m_params v1) (\<lambda>(val, v2).
             Inr (stream @ [val], v2))
       | Some (kind, ty, body) \<Rightarrow>
           if ty = Expression
           then andThen (ExpressionCallable ext body m_params v1) (\<lambda>(val, v2).
                  Inr (stream @ [val], v2))
           else StatementCallable ext body m_params stream v1)"

section \<open>The string filters \<^verbatim>\<open>replace\<close> and \<^verbatim>\<open>truncate\<close>\<close>

text \<open>
  The constructor of \<^verbatim>\<open>StringConverter\<close> declares the parameters of each mode.
\<close>

definition ReplaceMode_schema :: "ArgumentInfo list" where
  "ReplaceMode_schema =
     [\<lparr>name = ''old'', mandatory = True, defaultVal = EmptyValue\<rparr>,
      \<lparr>name = ''new'', mandatory = True, defaultVal = EmptyValue\<rparr>,
      \<lparr>name = ''count'', mandatory = False, defaultVal = IntValue 0\<rparr>]"

definition TruncateMode_schema :: "ArgumentInfo list" where
  "TruncateMode_schema =
     [\<lparr>name = ''length'', mandatory = False, defaultVal = IntValue 255\<rparr>,
      \<lparr>name = ''killwords'', mandatory = False, defaultVal = BoolValue False\<rparr>,
      \<lparr>name = ''end'', mandatory = False, defaultVal = StringValue ''...''\<rparr>,
      \<lparr>name = ''leeway'', mandatory = False, defaultVal = EmptyValue\<rparr>]"

text \<open>
  Modelled from the spec: \<^verbatim>\<open>FilterBase::ParseParams\<close> and
  \<^verbatim>\<open>FilterBase::GetArgumentValue\<close> (\<^verbatim>\<open>filters.h\<close>, absent here). The first runs the
  binder on the declared parameters and keeps the bound arguments; the second evaluates the
  expression bound to a name, or yields the empty value when the name is not bound.
\<close>

definition FilterBase_ParseParams ::
  "ArgumentInfo list \<Rightarrow> CallParams \<Rightarrow> abort + (string \<rightharpoonup> ExpressionEvaluator)" where
  "FilterBase_ParseParams argTable params =
     andThen (ParseCallParams argTable params) (\<lambda>(parsed, isSucceeded). Inr (args parsed))"

definition GetArgumentValue :: "(string \<rightharpoonup> ExpressionEvaluator) \<Rightarrow> string \<Rightarrow> ExpressionEvaluator" where
  "GetArgumentValue m_args argName context = EvaluateOrEmpty (m_args argName) context"

text \<open>
  The character classes \<^verbatim>\<open>boost::algorithm::is_alnum()\<close> and the one used by
  \<^verbatim>\<open>trim_right\<close> (\<^verbatim>\<open>is_space()\<close>), in the default locale, on narrow characters.
\<close>

definition isAlNum :: "char \<Rightarrow> bool" where
  "isAlNum ch =
     (let n = (of_char ch :: nat)
      in (48 \<le> n \<and> n \<le> 57) \<or> (65 \<le> n \<and> n \<le> 90) \<or> (97 \<le> n \<and> n \<le> 122))"

definition isSpace :: "char \<Rightarrow> bool" where
  "isSpace ch = (let n = (of_char ch :: nat) in n = 32 \<or> (9 \<le> n \<and> n \<le> 13))"

definition trim_right :: "string \<Rightarrow> string" where
  "trim_right str = rev (dropWhile isSpace (rev str))"

text \<open>
  The two loops of the truncate mode; the iterator \<^verbatim>\<open>p\<close> is its distance from
  \<^verbatim>\<open>str.begin()\<close>. Forward:
  \<^verbatim>\<open>for (; leeway != 0 && p != str.end() && isAlNum(*p); --leeway, ++p);\<close>
  where \<^verbatim>\<open>p\<close> starts inside the string, so \<^verbatim>\<open>p != str.end()\<close> is \<open>p < length str\<close>.
  \<^verbatim>\<open>leeway\<close> is counted in mathematical integers: a decrement of the least
  \<^verbatim>\<open>int64_t\<close> would wrap to the greatest, which still leaves more rounds than a string
  has characters, so the loop ends on one of the other two conditions either way.
  Backward: \<^verbatim>\<open>for (; p != str.begin() && isAlNum(*p); --p);\<close>
\<close>

function ScanForward :: "string \<Rightarrow> int \<Rightarrow> nat \<Rightarrow> nat" where
  "ScanForward str leeway p =
     (if leeway \<noteq> 0 \<and> p < length str \<and> isAlNum (str ! p)
      then ScanForward str (leeway - 1) (p + 1) else p)"
  by pat_completeness auto
termination
  by (relation "measure (\<lambda>(str, leeway, p). length str - p)") auto

declare ScanForward.simps [simp del]

fun ScanBackward :: "string \<Rightarrow> nat \<Rightarrow> nat" where
  "ScanBackward str 0 = 0"
| "ScanBackward str (Suc p) = (if isAlNum (str ! Suc p) then ScanBackward str p else Suc p)"

text \<open>
  The body of the lambda of \<^verbatim>\<open>TruncateMode\<close>, after the four arguments have been read
  and converted. \<open>endStr\<close> is the optional returned by \<^verbatim>\<open>GetAsSameString\<close>.
  \<^verbatim>\<open>str.begin() + length\<close> with a negative \<^verbatim>\<open>length\<close> leaves the string.
  \<^verbatim>\<open>length + leeway\<close> is an addition of two \<^verbatim>\<open>int64_t\<close> and wraps around.
\<close>

definition TruncateString :: "string \<Rightarrow> int \<Rightarrow> bool \<Rightarrow> string option \<Rightarrow> int \<Rightarrow> abort + string" where
  "TruncateString srcStr len killWords endStr leeway =
     (let end' = (case endStr of Some e \<Rightarrow> e | None \<Rightarrow> []) in
      if int (length srcStr) \<le> len then Inr srcStr
      else if killWords then
        (if int (length srcStr) > int64_wrap (len + leeway)
         then (if len < 0 then Inl IndexOutOfRange else Inr (take (nat len) srcStr @ end'))
         else Inr srcStr)
      else if len < 0 then Inl IndexOutOfRange
      else
        (let p = (if leeway \<noteq> 0 then ScanForward srcStr leeway (nat len) else nat len) in
         if leeway \<noteq> 0 \<and> p = length srcStr then Inr srcStr
         else
           (let p' = (if isAlNum (srcStr ! p) then ScanBackward srcStr p else p)
            in Inr (trim_right (take p' srcStr) @ end'))))"

text \<open>
  The truncate mode of \<^verbatim>\<open>StringConverter::Filter\<close> on a narrow source string: the four
  arguments are read in the order of the source, \<^verbatim>\<open>leeway\<close> with the default 5.
\<close>

definition Truncate ::
  "Externals \<Rightarrow> (string \<rightharpoonup> ExpressionEvaluator) \<Rightarrow> string \<Rightarrow> RenderContext \<Rightarrow>
   abort + (string \<times> RenderContext)" where
  "Truncate ext m_args srcStr context =
     andThen (GetArgumentValue m_args ''length'' context) (\<lambda>(lengthVal, c1).
     andThen (GetArgumentValue m_args ''killwords'' c1) (\<lambda>(killVal, c2).
     andThen (GetArgumentValue m_args ''end'' c2) (\<lambda>(endVal, c3).
     andThen (GetArgumentValue m_args ''leeway'' c3) (\<lambda>(leewayVal, c4).
       andThen (TruncateString srcStr (ConvertToInt ext lengthVal 0) (ConvertToBool ext killVal)
                  (GetAsSameString ext endVal) (ConvertToInt ext leewayVal 5))
         (\<lambda>str. Inr (str, c4))))))"

text \<open>
  A filter object is built from the call parameters of the filter expression (the
  constructor runs \<^verbatim>\<open>ParseParams\<close>) and then applied to the source string.
\<close>

definition TruncateFilter ::
  "Externals \<Rightarrow> CallParams \<Rightarrow> string \<Rightarrow> RenderContext \<Rightarrow> abort + (string \<times> RenderContext)" where
  "TruncateFilter ext params srcStr context =
     andThen (FilterBase_ParseParams TruncateMode_schema params) (\<lambda>m_args.
       Truncate ext m_args srcStr context)"

text \<open>
  The word-boundary branch of the truncation as the spec words it, for
  \<^verbatim>\<open>killwords = false\<close> and a source longer than \<open>len\<close>: ``start at index
  \<^verbatim>\<open>length\<close>, scan forward up to \<^verbatim>\<open>leeway\<close> alphanumeric characters looking for a
  boundary; if reached end, return the whole string; if still inside a word, scan backward
  to the start of the word; erase from that point to end; right-trim whitespace; append
  \<^verbatim>\<open>end\<close>''. The start of the word around position \<open>p\<close> is \<open>p\<close> less the number of
  alphanumeric characters that stand immediately before \<open>p\<close>.
\<close>

definition Truncate_spec :: "string \<Rightarrow> nat \<Rightarrow> string \<Rightarrow> nat \<Rightarrow> string" where
  "Truncate_spec src len endStr leeway =
     (let p = len + min leeway (length (takeWhile isAlNum (drop len src)))
      in if p = length src then src
         else
           (let wordStart = (if isAlNum (src ! p)
                             then p - length (takeWhile isAlNum (rev (take p src)))
                             else p)
            in trim_right (take wordStart src) @ endStr))"

text \<open>
  Modelled from the library's documentation: \<^verbatim>\<open>boost::algorithm::replace_first\<close> replaces
  the leftmost occurrence of the search string, \<^verbatim>\<open>replace_all\<close> every occurrence, found
  from left to right, each search resuming after the previous match; an empty search string
  matches nothing.
\<close>

fun replace_first :: "string \<Rightarrow> string \<Rightarrow> string \<Rightarrow> string" where
  "replace_first [] oldStr newStr = []"
| "replace_first (c # cs) oldStr newStr =
     (if oldStr \<noteq> [] \<and> take (length oldStr) (c # cs) = oldStr
      then newStr @ drop (length oldStr) (c # cs)
      else c # replace_first cs oldStr newStr)"

function replace_all :: "string \<Rightarrow> string \<Rightarrow> string \<Rightarrow> string" where
  "replace_all str oldStr newStr =
     (if str = [] \<or> oldStr = [] then str
      else if take (length oldStr) str = oldStr
      then newStr @ replace_all (drop (length oldStr) str) oldStr newStr
      else hd str # replace_all (tl str) oldStr newStr)"
  by pat_completeness auto
termination
  by (relation "measure (\<lambda>(str, oldStr, newStr). length str)") auto

declare replace_all.simps [simp del]

text \<open>
  The body of the lambda of \<^verbatim>\<open>ReplaceMode\<close>, after the arguments have been read:
  \<^verbatim>\<open>for (int64_t n = 0; n < count; ++ n) ba::replace_first(str, oldStr, newStr);\<close>
\<close>

definition ReplaceString :: "string \<Rightarrow> string \<Rightarrow> string \<Rightarrow> int \<Rightarrow> string" where
  "ReplaceString srcStr oldStr newStr count =
     (if count = 0 then replace_all srcStr oldStr newStr
      else ((\<lambda>str. replace_first str oldStr newStr) ^^ nat count) srcStr)"

definition Replace ::
  "Externals \<Rightarrow> (string \<rightharpoonup> ExpressionEvaluator) \<Rightarrow> string \<Rightarrow> RenderContext \<Rightarrow>
   abort + (string \<times> RenderContext)" where
  "Replace ext m_args srcStr context =
     andThen (GetArgumentValue m_args ''old'' context) (\<lambda>(oldVal, c1).
     andThen (GetArgumentValue m_args ''new'' c1) (\<lambda>(newVal, c2).
     andThen (GetArgumentValue m_args ''count'' c2) (\<lambda>(countVal, c3).
       Inr (ReplaceString srcStr
              (case GetAsSameString ext oldVal of Some s \<Rightarrow> s | None \<Rightarrow> [])
              (case GetAsSameString ext newVal of Some s \<Rightarrow> s | None \<Rightarrow> [])
              (ConvertToInt ext countVal 0), c3))))"

definition ReplaceFilter ::
  "Externals \<Rightarrow> CallParams \<Rightarrow> string \<Rightarrow> RenderContext \<Rightarrow> abort + (string \<times> RenderContext)" where
  "ReplaceFilter ext params srcStr context =
     andThen (FilterBase_ParseParams ReplaceMode_schema params) (\<lambda>m_args.
       Replace ext m_args srcStr context)"

text \<open>
  The replacement as the spec words it: the first \<open>n\<close> occurrences, from left to right,
  not overlapping, the inserted text not being searched again.
\<close>

function replace_first_n :: "nat \<Rightarrow> string \<Rightarrow> string \<Rightarrow> string \<Rightarrow> string" where
  "replace_first_n n str oldStr newStr =
     (if n = 0 \<or> str = [] \<or> oldStr = [] then str
      else if take (length oldStr) str = oldStr
      then newStr @ replace_first_n (n - 1) (drop (length oldStr) str) oldStr newStr
      else hd str # replace_first_n n (tl str) oldStr newStr)"
  by pat_completeness auto
termination
  by (relation "measure (\<lambda>(n, str, oldStr, newStr). length str)") auto

declare replace_first_n.simps [simp del]

text \<open>
  The environment of the concrete runs below: no value has a subscript, every expression
  callable records the call in the trace of effects and returns the empty value, every
  statement callable records the call and writes nothing.
\<close>

definition TracingExternals :: Externals where
  "TracingExternals =
     \<lparr>Subscript = (\<lambda>v idx values. EmptyValue),
      BinaryMathOperation = (\<lambda>oper l r. EmptyValue),
      InTesterTest = (\<lambda>seq v values. Inr (False, values)),
      GetAsTargetString = (\<lambda>v. case v of StringValue s \<Rightarrow> s | _ \<Rightarrow> []),
      ParseInt = (\<lambda>s. None),
      OtherToBool = (\<lambda>v. False),
      OtherToString = (\<lambda>v. None),
      ExpressionCallable =
        (\<lambda>body params values. Inr (EmptyValue, values\<lparr>effects := effects values @ [''called'']\<rparr>)),
      StatementCallable =
        (\<lambda>body params stream values.
           Inr (stream, values\<lparr>effects := effects values @ [''called'']\<rparr>))\<rparr>"

text \<open>
  The elements of a list value, materialised or generated.
\<close>

definition ListItems :: "InternalValue \<Rightarrow> InternalValue list" where
  "ListItems v =
     (case v of ListAdapter xs \<Rightarrow> xs | GeneratedList n f \<Rightarrow> map f [0..<n] | _ \<Rightarrow> [])"

section \<open>Invariants of the binder's loops\<close>

text \<open>
  The two declared names the binder treats as placeholders.
\<close>

definition placeholder :: "string \<Rightarrow> bool" where
  "placeholder n \<longleftrightarrow> n = ''*args'' \<or> n = ''**kwargs''"

text \<open>
  A slot that the keyword pass left unbound: the slots of the chain built from
  \<^verbatim>\<open>prevNotFound\<close> and \<^verbatim>\<open>nextNotFound\<close>.
\<close>

definition unbound :: "ArgInfo \<Rightarrow> bool" where
  "unbound a \<longleftrightarrow> state a = NotFound \<or> state a = NotFoundMandatory"

text \<open>
  The state the keyword pass gives the slot of a declared parameter.
\<close>

definition slot_state :: "CallParams \<Rightarrow> ArgumentInfo \<Rightarrow> ArgState" where
  "slot_state params a =
     (if placeholder (name a) then Ignored
      else if kwParams params (name a) \<noteq> None then Keyword
      else if mandatory a then NotFoundMandatory else NotFound)"

text \<open>
  The links of slot \<open>j\<close> among the first \<open>m\<close> slots: a bound slot has none, an
  unbound slot points back to the previous unbound slot and forward to the next one, and
  those point to it.
\<close>

definition link_ok :: "ArgInfo list \<Rightarrow> nat \<Rightarrow> nat \<Rightarrow> bool" where
  "link_ok ai m j \<longleftrightarrow>
        (\<not> unbound (ai ! j) \<longrightarrow> prevNotFound (ai ! j) = -1 \<and> nextNotFound (ai ! j) = -1) \<and>
        (unbound (ai ! j) \<longrightarrow>
           (prevNotFound (ai ! j) = -1 \<or>
              (\<exists>p<j. prevNotFound (ai ! j) = int p \<and> unbound (ai ! p) \<and> nextNotFound (ai ! p) = int j)) \<and>
           (nextNotFound (ai ! j) = -1 \<or>
              (\<exists>q<m. j < q \<and> nextNotFound (ai ! j) = int q \<and> unbound (ai ! q) \<and>
                      prevNotFound (ai ! q) = int j)))"

definition links_ok :: "ArgInfo list \<Rightarrow> nat \<Rightarrow> bool" where
  "links_ok ai m \<longleftrightarrow> (\<forall>j<m. link_ok ai m j)"

text \<open>
  The invariant of the first loop, at the start of round \<open>i\<close>.
\<close>

definition kw_inv :: "ArgumentInfo list \<Rightarrow> CallParams \<Rightarrow> KwScan \<Rightarrow> bool" where
  "kw_inv argInfos params st =
     (case st of (ai, res, i, fm, pnf) \<Rightarrow>
        length ai = length argInfos \<and> i \<le> length argInfos \<and>
        (\<forall>j<i. state (ai ! j) = slot_state params (argInfos ! j) \<and> info (ai ! j) = Some (argInfos ! j)) \<and>
        (\<forall>j. i \<le> j \<and> j < length argInfos \<longrightarrow> ai ! j = ArgInfo_init) \<and>
        links_ok ai i \<and>
        (pnf = -1 \<or> (0 \<le> pnf \<and> pnf < int i \<and> unbound (ai ! nat pnf) \<and> nextNotFound (ai ! nat pnf) = -1)) \<and>
        (fm = -1 \<or> (0 \<le> fm \<and> fm < int i \<and> state (ai ! nat fm) = NotFoundMandatory)) \<and>
        (\<forall>k. res k = (if (\<exists>a \<in> set (take i argInfos). name a = k) \<and> \<not> placeholder k
                       then kwParams params k else None)))"

text \<open>
  Following \<^verbatim>\<open>nextNotFound\<close> for \<open>k\<close> steps from a slot, and the statement that the
  first \<open>e\<close> slots met on the way from \<open>s\<close> are unbound slots of the vector.
\<close>

fun nth_next :: "ArgInfo list \<Rightarrow> nat \<Rightarrow> int \<Rightarrow> int" where
  "nth_next ai 0 c = c"
| "nth_next ai (Suc k) c = nextNotFound (ai ! nat (nth_next ai k c))"

definition walk_ok :: "ArgInfo list \<Rightarrow> nat \<Rightarrow> nat \<Rightarrow> bool" where
  "walk_ok ai s e \<longleftrightarrow>
     (\<forall>k<e. 0 \<le> nth_next ai k (int s) \<and> nat (nth_next ai k (int s)) < length ai \<and>
             unbound (ai ! nat (nth_next ai k (int s))))"

text \<open>
  What the window scan establishes: it returns a start slot and a count of positionals
  to consume, not larger than the number given, and as many unbound slots can be walked
  from the start slot.
\<close>

definition scan_post :: "ArgInfo list \<Rightarrow> nat \<Rightarrow> abort + (nat \<times> nat) \<Rightarrow> bool" where
  "scan_post ai nPos r \<longleftrightarrow>
     (\<exists>s' e'. r = Inr (s', e') \<and> e' \<le> nPos \<and>
        (e' = 0 \<or> (s' < length ai \<and> unbound (ai ! s') \<and> walk_ok ai s' e')))"

text \<open>
  What holds of the slots and of \<^verbatim>\<open>result.args\<close> from the end of the first loop on.
\<close>

definition bound_inv :: "ArgumentInfo list \<Rightarrow> ArgInfo list \<Rightarrow> (string \<rightharpoonup> ExpressionEvaluator) \<Rightarrow> bool" where
  "bound_inv argInfos ai res \<longleftrightarrow>
     length ai = length argInfos \<and>
     (\<forall>j<length ai.
        info (ai ! j) = Some (argInfos ! j) \<and>
        (state (ai ! j) = Ignored \<longleftrightarrow> placeholder (name (argInfos ! j))) \<and>
        (state (ai ! j) = Keyword \<or> state (ai ! j) = Positional \<longrightarrow> res (name (argInfos ! j)) \<noteq> None) \<and>
        (mandatory (argInfos ! j) \<and> \<not> placeholder (name (argInfos ! j)) \<longrightarrow> state (ai ! j) \<noteq> NotFound)) \<and>
     (\<forall>k. res k \<noteq> None \<longrightarrow> \<not> placeholder k \<and> k \<in> name ` set argInfos)"

text \<open>
  The initial value of \<^verbatim>\<open>startPosArg\<close> and \<^verbatim>\<open>curPosArg\<close>.
\<close>

definition window_start :: "int \<Rightarrow> nat" where
  "window_start fm = (if fm = -1 then 0 else size_t_cast fm)"

text \<open>
  The \<open>k\<close>-th slot on the walk from \<open>s\<close>.
\<close>

definition walk_slot :: "ArgInfo list \<Rightarrow> nat \<Rightarrow> nat \<Rightarrow> nat" where
  "walk_slot ai s k = nat (nth_next ai k (int s))"

section \<open>Evaluating the model on concrete inputs\<close>

lemmas ScanWindow_numeral = ScanWindow.simps(2)[of "pred_numeral k" for k, folded numeral_eq_Suc]

lemmas binder_eval =
  ParseCallParams_def ParseCallParamsImpl_def ArgInfo_init_def size_t_cast_def SkipBound.simps
  MapPositional.simps Let_def ScanWindow_numeral

lemmas call_eval =
  CallExpression_Evaluate_def CallExpression_Render_def CallArbitraryFn_def ResolveCallable_def
  GetIfCallable_def ConstantExpression_def andThen_def ConvertToInt_def InvalidFn_def RangeFn_def
  LoopCycleFn_def

section \<open>The loops of the binder keep their invariants\<close>

lemma kw_inv_init:
  "kw_inv argInfos params (replicate (length argInfos) ArgInfo_init, Map.empty, 0, -1, -1)"
  by (simp add: kw_inv_def links_ok_def)

lemma body_placeholder:
  assumes "placeholder (name a)" "i < length ai"
  shows "FindKwArgs_body a params (ai, res, i, fm, pnf) =
        (ai[i := (ai ! i)\<lparr>info := Some a, state := Ignored\<rparr>], res, Suc i, fm, pnf)"
  using assms by (auto simp: placeholder_def Let_def)

lemma body_keyword:
  assumes "\<not> placeholder (name a)" "kwParams params (name a) = Some p" "i < length ai"
  shows "FindKwArgs_body a params (ai, res, i, fm, pnf) =
        (ai[i := (ai ! i)\<lparr>info := Some a, state := Keyword\<rparr>], res(name a \<mapsto> p), Suc i, fm, pnf)"
  using assms by (auto simp: placeholder_def Let_def)

lemma body_unbound_first:
  assumes "\<not> placeholder (name a)" "kwParams params (name a) = None" "i < length ai"
  shows "FindKwArgs_body a params (ai, res, i, fm, -1) =
        (ai[i := (ai ! i)\<lparr>info := Some a, state := (if mandatory a then NotFoundMandatory else NotFound), prevNotFound := -1\<rparr>],
         res, Suc i, (if mandatory a \<and> fm = -1 then int i else fm), int i)"
  using assms by (auto simp: placeholder_def Let_def)

lemma body_unbound_next:
  assumes "\<not> placeholder (name a)" "kwParams params (name a) = None" "0 \<le> pnf" "nat pnf < i" "i < length ai"
  shows "FindKwArgs_body a params (ai, res, i, fm, pnf) =
        (ai[nat pnf := (ai ! nat pnf)\<lparr>nextNotFound := int i\<rparr>,
            i := (ai ! i)\<lparr>info := Some a, state := (if mandatory a then NotFoundMandatory else NotFound), prevNotFound := pnf\<rparr>],
         res, Suc i, (if mandatory a \<and> fm = -1 then int i else fm), int i)"
proof -
  have ne: "nat pnf \<noteq> i" "pnf \<noteq> -1" using assms by auto
  have lt: "nat pnf < length ai" using assms by simp
  show ?thesis
    using assms(1,2) ne lt assms(5)
    by (simp add: placeholder_def Let_def list_update_swap[of i "nat pnf"])
qed

lemma link_ok_update_above:
  assumes "link_ok ai m j" "j < m" "m \<le> i"
  shows "link_ok (ai[i := x]) m j"
proof -
  have same: "\<And>q. q < m \<Longrightarrow> ai[i := x] ! q = ai ! q"
    using assms(3) by simp
  have "\<And>p. p < j \<Longrightarrow> ai[i := x] ! p = ai ! p"
    using assms(2,3) by simp
  then show ?thesis
    using assms(1,2) same unfolding link_ok_def by auto
qed

lemma link_ok_mono:
  assumes "link_ok ai m j" "m \<le> m'"
  shows "link_ok ai m' j"
  using assms unfolding link_ok_def by (meson less_le_trans)

lemma links_ok_extend_unlinked:
  assumes links: "links_ok ai i" and i: "i < length ai"
    and x: "prevNotFound x = -1" "nextNotFound x = -1"
  shows "links_ok (ai[i := x]) (Suc i)"
  unfolding links_ok_def
proof (intro allI impI)
  fix j assume j: "j < Suc i"
  show "link_ok (ai[i := x]) (Suc i) j"
  proof (cases "j = i")
    case True
    then show ?thesis using i x by (simp add: link_ok_def)
  next
    case False
    then have ji: "j < i" using j by simp
    then have "link_ok ai i j" using links by (simp add: links_ok_def)
    then have "link_ok (ai[i := x]) i j" using ji by (rule link_ok_update_above) simp
    then show ?thesis by (rule link_ok_mono) simp
  qed
qed

lemma links_ok_extend_linked:
  assumes links: "links_ok ai i" and i: "i < length ai" and p: "p < i"
    and last: "unbound (ai ! p)" "nextNotFound (ai ! p) = -1"
    and x: "unbound x" "prevNotFound x = int p" "nextNotFound x = -1"
  shows "links_ok (ai[p := (ai ! p)\<lparr>nextNotFound := int i\<rparr>, i := x]) (Suc i)"
  unfolding links_ok_def
proof (intro allI impI)
  let ?ai = "ai[p := (ai ! p)\<lparr>nextNotFound := int i\<rparr>, i := x]"
  have at_i: "?ai ! i = x" using i by simp
  have at_p: "?ai ! p = (ai ! p)\<lparr>nextNotFound := int i\<rparr>" using i p by simp
  have other: "\<And>q. q \<noteq> i \<Longrightarrow> q \<noteq> p \<Longrightarrow> ?ai ! q = ai ! q" by simp
  have unb: "\<And>q. q < i \<Longrightarrow> unbound (?ai ! q) = unbound (ai ! q)"
    using i p by (simp add: nth_list_update unbound_def)
  have prv: "\<And>q. q < i \<Longrightarrow> prevNotFound (?ai ! q) = prevNotFound (ai ! q)"
    using i p by (simp add: nth_list_update)
  have nxt: "\<And>q. q < i \<Longrightarrow> q \<noteq> p \<Longrightarrow> nextNotFound (?ai ! q) = nextNotFound (ai ! q)"
    using i p by (simp add: nth_list_update)
  fix j assume j: "j < Suc i"
  consider "j = i" | "j = p" | "j < i" "j \<noteq> p" using j by linarith
  then show "link_ok ?ai (Suc i) j"
  proof cases
    case 1
    have "unbound (?ai ! p)" using last(1) unb[OF p] by simp
    moreover have "nextNotFound (?ai ! p) = int i" using at_p by simp
    ultimately show ?thesis
      unfolding link_ok_def 1 at_i using x p by auto
  next
    case 2
    have l: "link_ok ai i p" using links p by (simp add: links_ok_def)
    have prevpart: "prevNotFound (?ai ! p) = -1 \<or>
        (\<exists>p'<p. prevNotFound (?ai ! p) = int p' \<and> unbound (?ai ! p') \<and> nextNotFound (?ai ! p') = int p)"
    proof -
      from l last(1) have "prevNotFound (ai ! p) = -1 \<or>
        (\<exists>p'<p. prevNotFound (ai ! p) = int p' \<and> unbound (ai ! p') \<and> nextNotFound (ai ! p') = int p)"
        by (simp add: link_ok_def)
      then show ?thesis
      proof
        assume "prevNotFound (ai ! p) = -1"
        then show ?thesis using prv[OF p] by simp
      next
        assume "\<exists>p'<p. prevNotFound (ai ! p) = int p' \<and> unbound (ai ! p') \<and> nextNotFound (ai ! p') = int p"
        then obtain p' where p': "p' < p" "prevNotFound (ai ! p) = int p'" "unbound (ai ! p')"
          "nextNotFound (ai ! p') = int p" by blast
        have "p' < i" "p' \<noteq> p" using p' p by simp_all
        then have "unbound (?ai ! p')" "nextNotFound (?ai ! p') = int p"
          using unb[of p'] nxt[of p'] p' by simp_all
        then show ?thesis using p' prv[OF p] by auto
      qed
    qed
    have nextpart: "\<exists>q<Suc i. p < q \<and> nextNotFound (?ai ! p) = int q \<and> unbound (?ai ! q) \<and>
                      prevNotFound (?ai ! q) = int p"
      using at_p at_i x p by (intro exI[of _ i]) simp
    have up: "unbound (?ai ! p)" using last(1) unb[OF p] by simp
    show ?thesis unfolding link_ok_def 2 using up prevpart nextpart by blast
  next
    case 3
    have l: "link_ok ai i j" using links 3 by (simp add: links_ok_def)
    have sj: "unbound (?ai ! j) = unbound (ai ! j)" "prevNotFound (?ai ! j) = prevNotFound (ai ! j)"
      "nextNotFound (?ai ! j) = nextNotFound (ai ! j)"
      using unb prv nxt 3 by simp_all
    show ?thesis
    proof (cases "unbound (ai ! j)")
      case False
      then show ?thesis using l sj by (simp add: link_ok_def)
    next
      case True
      have prevpart: "prevNotFound (ai ! j) = -1 \<or>
        (\<exists>p'<j. prevNotFound (ai ! j) = int p' \<and> unbound (?ai ! p') \<and> nextNotFound (?ai ! p') = int j)"
      proof -
        from l True have "prevNotFound (ai ! j) = -1 \<or>
          (\<exists>p'<j. prevNotFound (ai ! j) = int p' \<and> unbound (ai ! p') \<and> nextNotFound (ai ! p') = int j)"
          by (simp add: link_ok_def)
        then show ?thesis
        proof
          assume "prevNotFound (ai ! j) = -1" then show ?thesis by simp
        next
          assume "\<exists>p'<j. prevNotFound (ai ! j) = int p' \<and> unbound (ai ! p') \<and> nextNotFound (ai ! p') = int j"
          then obtain p' where p': "p' < j" "prevNotFound (ai ! j) = int p'" "unbound (ai ! p')"
            "nextNotFound (ai ! p') = int j" by blast
          have "p' \<noteq> p" using p' last(2) by auto
          moreover have "p' < i" using p' 3 by simp
          ultimately have "unbound (?ai ! p')" "nextNotFound (?ai ! p') = int j"
            using unb[of p'] nxt[of p'] p' by simp_all
          then show ?thesis using p' by auto
        qed
      qed
      have nextpart: "nextNotFound (ai ! j) = -1 \<or>
        (\<exists>q<Suc i. j < q \<and> nextNotFound (ai ! j) = int q \<and> unbound (?ai ! q) \<and> prevNotFound (?ai ! q) = int j)"
      proof -
        from l True have "nextNotFound (ai ! j) = -1 \<or>
          (\<exists>q<i. j < q \<and> nextNotFound (ai ! j) = int q \<and> unbound (ai ! q) \<and> prevNotFound (ai ! q) = int j)"
          by (simp add: link_ok_def)
        then show ?thesis
        proof
          assume "nextNotFound (ai ! j) = -1" then show ?thesis by simp
        next
          assume "\<exists>q<i. j < q \<and> nextNotFound (ai ! j) = int q \<and> unbound (ai ! q) \<and> prevNotFound (ai ! q) = int j"
          then obtain q where q: "q < i" "j < q" "nextNotFound (ai ! j) = int q" "unbound (ai ! q)"
            "prevNotFound (ai ! q) = int j" by blast
          have "unbound (?ai ! q)" "prevNotFound (?ai ! q) = int j"
            using unb[of q] prv[of q] q by simp_all
          then show ?thesis using q by (intro disjI2 exI[of _ q]) simp
        qed
      qed
      show ?thesis unfolding link_ok_def sj using True prevpart nextpart by blast
    qed
  qed
qed

lemma kw_inv_step:
  assumes inv: "kw_inv argInfos params (ai, res, i, fm, pnf)" and i: "i < length argInfos"
    and E1: "length ai' = length ai"
    and E2: "\<And>j. j < i \<Longrightarrow> state (ai' ! j) = state (ai ! j) \<and> info (ai' ! j) = info (ai ! j)"
    and E3: "\<And>j. i < j \<Longrightarrow> j < length ai \<Longrightarrow> ai' ! j = ai ! j"
    and E4: "state (ai' ! i) = slot_state params (argInfos ! i)" "info (ai' ! i) = Some (argInfos ! i)"
    and E5: "links_ok ai' (Suc i)"
    and P: "pnf' = -1 \<or> (0 \<le> pnf' \<and> pnf' < int (Suc i) \<and> unbound (ai' ! nat pnf') \<and>
              nextNotFound (ai' ! nat pnf') = -1)"
    and F: "fm' = fm \<or> (fm' = int i \<and> state (ai' ! i) = NotFoundMandatory)"
    and R: "\<And>k. res' k = (if k = name (argInfos ! i) \<and> \<not> placeholder k then kwParams params k else res k)"
  shows "kw_inv argInfos params (ai', res', Suc i, fm', pnf')"
proof -
  from inv have len: "length ai = length argInfos"
    and old: "\<And>j. j < i \<Longrightarrow> state (ai ! j) = slot_state params (argInfos ! j) \<and> info (ai ! j) = Some (argInfos ! j)"
    and fresh: "\<And>j. i \<le> j \<Longrightarrow> j < length argInfos \<Longrightarrow> ai ! j = ArgInfo_init"
    and fm: "fm = -1 \<or> (0 \<le> fm \<and> fm < int i \<and> state (ai ! nat fm) = NotFoundMandatory)"
    and res: "\<And>k. res k = (if (\<exists>a \<in> set (take i argInfos). name a = k) \<and> \<not> placeholder k
                       then kwParams params k else None)"
    by (auto simp: kw_inv_def)
  have c3: "\<forall>j<Suc i. state (ai' ! j) = slot_state params (argInfos ! j) \<and> info (ai' ! j) = Some (argInfos ! j)"
  proof (intro allI impI)
    fix j assume "j < Suc i"
    then consider "j = i" | "j < i" by linarith
    then show "state (ai' ! j) = slot_state params (argInfos ! j) \<and> info (ai' ! j) = Some (argInfos ! j)"
      using E2 E4 old by cases simp_all
  qed
  have c4: "\<forall>j. Suc i \<le> j \<and> j < length argInfos \<longrightarrow> ai' ! j = ArgInfo_init"
    using E3 fresh len by simp
  have c7: "fm' = -1 \<or> (0 \<le> fm' \<and> fm' < int (Suc i) \<and> state (ai' ! nat fm') = NotFoundMandatory)"
  proof -
    from F show ?thesis
    proof
      assume eq: "fm' = fm"
      from fm show ?thesis
      proof
        assume "fm = -1" then show ?thesis using eq by simp
      next
        assume a: "0 \<le> fm \<and> fm < int i \<and> state (ai ! nat fm) = NotFoundMandatory"
        then have "nat fm < i" by linarith
        then have "state (ai' ! nat fm) = state (ai ! nat fm)" using E2 by simp
        then show ?thesis using a eq by simp
      qed
    next
      assume "fm' = int i \<and> state (ai' ! i) = NotFoundMandatory"
      then show ?thesis by simp
    qed
  qed
  have take: "set (take (Suc i) argInfos) = insert (argInfos ! i) (set (take i argInfos))"
    using i by (simp add: take_Suc_conv_app_nth)
  have c8: "\<forall>k. res' k = (if (\<exists>a \<in> set (take (Suc i) argInfos). name a = k) \<and> \<not> placeholder k
                       then kwParams params k else None)"
  proof
    fix k
    show "res' k = (if (\<exists>a \<in> set (take (Suc i) argInfos). name a = k) \<and> \<not> placeholder k
                       then kwParams params k else None)"
      unfolding R[of k] res[of k] take by auto
  qed
  show ?thesis
    unfolding kw_inv_def using E1 len i c3 c4 E5 P c7 c8 by simp
qed

lemma kw_inv_body:
  assumes inv: "kw_inv argInfos params (ai, res, i, fm, pnf)" and i: "i < length argInfos"
  shows "kw_inv argInfos params (FindKwArgs_body (argInfos ! i) params (ai, res, i, fm, pnf))"
proof -
  let ?a = "argInfos ! i"
  from inv have len: "length ai = length argInfos"
    and fresh: "\<And>j. i \<le> j \<Longrightarrow> j < length argInfos \<Longrightarrow> ai ! j = ArgInfo_init"
    and links: "links_ok ai i"
    and pnf: "pnf = -1 \<or> (0 \<le> pnf \<and> pnf < int i \<and> unbound (ai ! nat pnf) \<and> nextNotFound (ai ! nat pnf) = -1)"
    and res: "\<And>k. res k = (if (\<exists>a \<in> set (take i argInfos). name a = k) \<and> \<not> placeholder k
                       then kwParams params k else None)"
    by (auto simp: kw_inv_def)
  have il: "i < length ai" using i len by simp
  have init: "ai ! i = ArgInfo_init" using fresh[of i] i by simp
  have keep_pnf: "pnf = -1 \<or> (0 \<le> pnf \<and> pnf < int (Suc i) \<and> unbound (ai[i := x] ! nat pnf) \<and>
              nextNotFound (ai[i := x] ! nat pnf) = -1)" for x
  proof -
    from pnf show ?thesis
    proof
      assume "pnf = -1" then show ?thesis by simp
    next
      assume a: "0 \<le> pnf \<and> pnf < int i \<and> unbound (ai ! nat pnf) \<and> nextNotFound (ai ! nat pnf) = -1"
      then have "nat pnf < i" by linarith
      then have "ai[i := x] ! nat pnf = ai ! nat pnf" by simp
      then show ?thesis using a by simp
    qed
  qed
  show ?thesis
  proof (cases "placeholder (name ?a)")
    case True
    let ?x = "(ai ! i)\<lparr>info := Some ?a, state := Ignored\<rparr>"
    have body: "FindKwArgs_body ?a params (ai, res, i, fm, pnf) = (ai[i := ?x], res, Suc i, fm, pnf)"
      using True il by (rule body_placeholder)
    have "links_ok (ai[i := ?x]) (Suc i)"
      using links il by (rule links_ok_extend_unlinked) (simp_all add: init ArgInfo_init_def)
    then show ?thesis unfolding body
      using inv i il True keep_pnf[of ?x]
      by (intro kw_inv_step[where ai = ai and res = res and fm = fm and pnf = pnf])
         (auto simp: slot_state_def)
  next
    case np: False
    show ?thesis
    proof (cases "kwParams params (name ?a)")
      case (Some p)
      let ?x = "(ai ! i)\<lparr>info := Some ?a, state := Keyword\<rparr>"
      have body: "FindKwArgs_body ?a params (ai, res, i, fm, pnf) =
           (ai[i := ?x], res(name ?a \<mapsto> p), Suc i, fm, pnf)"
        using np Some il by (rule body_keyword)
      have "links_ok (ai[i := ?x]) (Suc i)"
        using links il by (rule links_ok_extend_unlinked) (simp_all add: init ArgInfo_init_def)
      then show ?thesis unfolding body
        using inv i il np Some keep_pnf[of ?x]
        by (intro kw_inv_step[where ai = ai and res = res and fm = fm and pnf = pnf])
           (simp_all add: slot_state_def)
    next
      case None
      let ?S = "if mandatory ?a then NotFoundMandatory else NotFound"
      let ?fm = "if mandatory ?a \<and> fm = -1 then int i else fm"
      have resn: "res (name ?a) = None" using res[of "name ?a"] None by simp
      from pnf show ?thesis
      proof
        assume m1: "pnf = -1"
        let ?x = "(ai ! i)\<lparr>info := Some ?a, state := ?S, prevNotFound := -1\<rparr>"
        have body: "FindKwArgs_body ?a params (ai, res, i, fm, pnf) =
             (ai[i := ?x], res, Suc i, ?fm, int i)"
          unfolding m1 using np None il by (rule body_unbound_first)
        have "links_ok (ai[i := ?x]) (Suc i)"
          using links il by (rule links_ok_extend_unlinked) (simp_all add: init ArgInfo_init_def)
        then show ?thesis unfolding body
          using inv i il np None resn
          by (intro kw_inv_step[where ai = ai and res = res and fm = fm and pnf = pnf])
             (simp_all add: slot_state_def unbound_def init ArgInfo_init_def)
      next
        assume a: "0 \<le> pnf \<and> pnf < int i \<and> unbound (ai ! nat pnf) \<and> nextNotFound (ai ! nat pnf) = -1"
        then have p: "nat pnf < i" by linarith
        let ?x = "(ai ! i)\<lparr>info := Some ?a, state := ?S, prevNotFound := pnf\<rparr>"
        let ?ai = "ai[nat pnf := (ai ! nat pnf)\<lparr>nextNotFound := int i\<rparr>, i := ?x]"
        have body: "FindKwArgs_body ?a params (ai, res, i, fm, pnf) = (?ai, res, Suc i, ?fm, int i)"
          using np None _ p il by (rule body_unbound_next) (use a in simp)
        have "links_ok ?ai (Suc i)"
          using links il p by (rule links_ok_extend_linked) (use a in \<open>simp_all add: unbound_def init ArgInfo_init_def\<close>)
        then show ?thesis unfolding body
          using inv i il np None resn p
          by (intro kw_inv_step[where ai = ai and res = res and fm = fm and pnf = pnf])
             (simp_all add: slot_state_def unbound_def init ArgInfo_init_def nth_list_update)
      qed
    qed
  qed
qed

lemma FindKwArgs_inv:
  assumes "kw_inv argInfos params (ai, res, i, fm, pnf)"
    and "rest = drop i argInfos"
  shows "kw_inv argInfos params (FindKwArgs rest params (ai, res, i, fm, pnf)) \<and>
         fst (snd (snd (FindKwArgs rest params (ai, res, i, fm, pnf)))) = length argInfos"
  using assms
proof (induction rest arbitrary: ai res i fm pnf)
  case Nil
  then have "length argInfos \<le> i" by simp
  moreover have "i \<le> length argInfos" using Nil(1) by (simp add: kw_inv_def)
  ultimately show ?case using Nil(1) by simp
next
  case (Cons a rest)
  then have i: "i < length argInfos"
    by (metis drop_all leI list.distinct(1))
  then have "argInfos ! i # drop (Suc i) argInfos = a # rest"
    using Cons(3) by (simp add: Cons_nth_drop_Suc)
  then have a: "a = argInfos ! i" and rest: "rest = drop (Suc i) argInfos"
    by simp_all
  obtain ai' res' i' fm' pnf' where body: "FindKwArgs_body a params (ai, res, i, fm, pnf) = (ai', res', i', fm', pnf')"
    by (metis prod_cases5)
  have "i' = Suc i" using body by (auto simp: Let_def split: if_splits option.splits)
  moreover have "kw_inv argInfos params (ai', res', i', fm', pnf')"
    using kw_inv_body[OF Cons(2) i] body a by simp
  ultimately show ?case using Cons(1)[of ai' res' i' fm' pnf'] rest body by simp
qed

lemma nth_next_shift: "nth_next ai (Suc k) c = nth_next ai k (nextNotFound (ai ! nat c))"
  by (induction k) simp_all

lemma SkipBound_ge: "startPosArg \<le> SkipBound ai startPosArg"
proof (induction ai startPosArg rule: SkipBound.induct)
  case (1 ai s)
  show ?case
  proof (cases "s < length ai \<and> (state (ai ! s) = Keyword \<or> state (ai ! s) = Positional)")
    case True
    then have "SkipBound ai s = SkipBound ai (s + 1)" by (subst SkipBound.simps) simp
    then show ?thesis using 1 True by simp
  next
    case False
    then have "SkipBound ai s = s" by (subst SkipBound.simps) auto
    then show ?thesis by simp
  qed
qed

lemma SkipBound_stop:
  "SkipBound ai s < length ai \<Longrightarrow>
   state (ai ! SkipBound ai s) \<noteq> Keyword \<and> state (ai ! SkipBound ai s) \<noteq> Positional"
proof (induction ai s rule: SkipBound.induct)
  case (1 ai s)
  show ?case
  proof (cases "s < length ai \<and> (state (ai ! s) = Keyword \<or> state (ai ! s) = Positional)")
    case True
    then have "SkipBound ai s = SkipBound ai (s + 1)" by (subst SkipBound.simps) simp
    then show ?thesis using 1 True by simp
  next
    case False
    then have "SkipBound ai s = s" by (subst SkipBound.simps) auto
    then show ?thesis using False 1(2) by auto
  qed
qed

lemma SkipBound_same:
  "state (ai ! s) \<noteq> Keyword \<Longrightarrow> state (ai ! s) \<noteq> Positional \<Longrightarrow> SkipBound ai s = s"
  by (subst SkipBound.simps) simp

lemma SkipBound_le:
  "s \<le> j \<Longrightarrow> j < length ai \<Longrightarrow> state (ai ! j) \<noteq> Keyword \<Longrightarrow> state (ai ! j) \<noteq> Positional \<Longrightarrow>
   SkipBound ai s \<le> j"
proof (induction ai s rule: SkipBound.induct)
  case (1 ai s)
  show ?case
  proof (cases "s < length ai \<and> (state (ai ! s) = Keyword \<or> state (ai ! s) = Positional)")
    case True
    then have eq: "SkipBound ai s = SkipBound ai (s + 1)" by (subst SkipBound.simps) simp
    have "s \<noteq> j" using True 1(4,5) by auto
    then have "s + 1 \<le> j" using 1(2) by simp
    then show ?thesis using 1 True eq by simp
  next
    case False
    then have "SkipBound ai s = s" by (subst SkipBound.simps) auto
    then show ?thesis using 1(2) by simp
  qed
qed

lemma link_unbound_prev:
  assumes "links_ok ai (length ai)" "j < length ai" "prevNotFound (ai ! j) \<noteq> -1"
  shows "\<exists>p<j. prevNotFound (ai ! j) = int p \<and> unbound (ai ! p) \<and> nextNotFound (ai ! p) = int j \<and> unbound (ai ! j)"
  using assms unfolding links_ok_def link_ok_def by blast

lemma link_unbound_next:
  assumes "links_ok ai (length ai)" "j < length ai" "nextNotFound (ai ! j) \<noteq> -1"
  shows "\<exists>q<length ai. j < q \<and> nextNotFound (ai ! j) = int q \<and> unbound (ai ! q) \<and>
           prevNotFound (ai ! q) = int j \<and> unbound (ai ! j)"
  using assms unfolding links_ok_def link_ok_def by blast

lemma walk_ok_prepend:
  assumes "walk_ok ai s e" "p < length ai" "unbound (ai ! p)" "nextNotFound (ai ! p) = int s"
  shows "walk_ok ai p (Suc e)"
  unfolding walk_ok_def
proof (intro allI impI)
  fix k assume k: "k < Suc e"
  show "0 \<le> nth_next ai k (int p) \<and> nat (nth_next ai k (int p)) < length ai \<and>
        unbound (ai ! nat (nth_next ai k (int p)))"
  proof (cases k)
    case 0
    then show ?thesis using assms by simp
  next
    case (Suc k')
    then have "nth_next ai k (int p) = nth_next ai k' (int s)"
      using assms(4) by (simp only: nth_next_shift) simp
    moreover have "k' < e" using k Suc by simp
    ultimately show ?thesis using assms(1) by (simp add: walk_ok_def)
  qed
qed

lemma walk_ok_append:
  assumes "walk_ok ai s e" "1 \<le> e" "nth_next ai (e - 1) (int s) = int c"
    "nextNotFound (ai ! c) = int q" "q < length ai" "unbound (ai ! q)"
  shows "walk_ok ai s (Suc e)" "nth_next ai e (int s) = int q"
proof -
  obtain e' where e: "e = Suc e'" using assms(2) by (cases e) auto
  show n: "nth_next ai e (int s) = int q"
    using assms(3,4) e by simp
  show "walk_ok ai s (Suc e)"
    unfolding walk_ok_def
  proof (intro allI impI)
    fix k assume "k < Suc e"
    then consider "k < e" | "k = e" by linarith
    then show "0 \<le> nth_next ai k (int s) \<and> nat (nth_next ai k (int s)) < length ai \<and>
        unbound (ai ! nat (nth_next ai k (int s)))"
    proof cases
      case 1
      then show ?thesis using assms(1) by (simp add: walk_ok_def)
    next
      case 2
      then show ?thesis using n assms(5,6) by simp
    qed
  qed
qed

lemma ScanWindow_rest:
  assumes links: "links_ok ai (length ai)"
  shows "start < length ai \<Longrightarrow> cur < length ai \<Longrightarrow> eaten \<le> nPos \<Longrightarrow>
     start + (length ai - cur) + 1 \<le> fuel \<Longrightarrow>
     (state (ai ! start) = Ignored \<and> eaten = 0) \<or>
     (unbound (ai ! start) \<and> 1 \<le> eaten \<and> walk_ok ai start eaten \<and>
      (unbound (ai ! cur) \<longrightarrow> nth_next ai (eaten - 1) (int start) = int cur)) \<Longrightarrow>
     scan_post ai nPos (ScanWindow fuel ai nPos False start cur eaten)"
proof (induction fuel arbitrary: start cur eaten)
  case 0
  then show ?case by simp
next
  case (Suc fuel)
  note J = Suc.prems(5)
  have stop: "scan_post ai nPos (Inr (start, eaten))"
    using J Suc.prems(1,3) unfolding scan_post_def by auto
  show ?case
  proof (cases "eaten < nPos")
    case False
    then have "ScanWindow (Suc fuel) ai nPos False start cur eaten = Inr (start, eaten)" by simp
    then show ?thesis using stop by simp
  next
    case lt: True
    show ?thesis
    proof (cases "prevNotFound (ai ! start) = -1")
      case pm: True
      show ?thesis
      proof (cases "nextNotFound (ai ! cur) = -1")
        case True
        then have "ScanWindow (Suc fuel) ai nPos False start cur eaten = Inr (start, eaten)"
          using lt pm Suc.prems(1,2) by simp
        then show ?thesis using stop by simp
      next
        case False
        then obtain q where q: "q < length ai" "cur < q" "nextNotFound (ai ! cur) = int q"
          "unbound (ai ! q)" "unbound (ai ! cur)"
          using link_unbound_next[OF links Suc.prems(2)] by blast
        let ?inc = "if state (ai ! start) = Ignored then 0 else 1 :: nat"
        have step: "ScanWindow (Suc fuel) ai nPos False start cur eaten =
                    ScanWindow fuel ai nPos False start q (eaten + ?inc)"
          using lt pm Suc.prems(1,2) False q(3) by (simp add: Let_def size_t_cast_def)
        have fuel: "start + (length ai - q) + 1 \<le> fuel"
          using Suc.prems(4) q(1,2) by linarith
        have en: "eaten + ?inc \<le> nPos" using lt by simp
        have J': "(state (ai ! start) = Ignored \<and> eaten + ?inc = 0) \<or>
           (unbound (ai ! start) \<and> 1 \<le> eaten + ?inc \<and> walk_ok ai start (eaten + ?inc) \<and>
            (unbound (ai ! q) \<longrightarrow> nth_next ai (eaten + ?inc - 1) (int start) = int q))"
        proof (cases "state (ai ! start) = Ignored")
          case True
          then show ?thesis using J by (auto simp: unbound_def)
        next
          case ni: False
          then have j2: "unbound (ai ! start)" "1 \<le> eaten" "walk_ok ai start eaten"
            "nth_next ai (eaten - 1) (int start) = int cur"
            using J q(5) by auto
          have "walk_ok ai start (Suc eaten)" "nth_next ai eaten (int start) = int q"
            using walk_ok_append[OF j2(3) j2(2) j2(4) q(3) q(1) q(4)] by simp_all
          then show ?thesis using ni j2(1) by simp
        qed
        show ?thesis unfolding step
          by (rule Suc.IH[OF Suc.prems(1) q(1) en fuel J'])
      qed
    next
      case False
      then obtain p where p: "p < start" "prevNotFound (ai ! start) = int p" "unbound (ai ! p)"
          "nextNotFound (ai ! p) = int start" "unbound (ai ! start)"
        using link_unbound_prev[OF links Suc.prems(1)] by blast
      have pl: "p < length ai" using p(1) Suc.prems(1) by simp
      have ni: "state (ai ! p) \<noteq> Ignored" using p(3) by (auto simp: unbound_def)
      have step: "ScanWindow (Suc fuel) ai nPos False start cur eaten =
                    ScanWindow fuel ai nPos False p cur (eaten + 1)"
        using lt False Suc.prems(1) p(2) pl ni by (simp add: Let_def size_t_cast_def)
      have j2: "1 \<le> eaten" "walk_ok ai start eaten"
            "unbound (ai ! cur) \<longrightarrow> nth_next ai (eaten - 1) (int start) = int cur"
        using J p(5) by (auto simp: unbound_def)
      have w: "walk_ok ai p (Suc eaten)"
        using walk_ok_prepend[OF j2(2) pl p(3) p(4)] .
      have c: "unbound (ai ! cur) \<longrightarrow> nth_next ai eaten (int p) = int cur"
      proof
        assume "unbound (ai ! cur)"
        then have "nth_next ai (eaten - 1) (int start) = int cur" using j2(3) by simp
        moreover obtain e' where "eaten = Suc e'" using j2(1) by (cases eaten) auto
        ultimately show "nth_next ai eaten (int p) = int cur"
          using p(4) by (simp only: nth_next_shift) simp
      qed
      have J': "(state (ai ! p) = Ignored \<and> eaten + 1 = 0) \<or>
           (unbound (ai ! p) \<and> 1 \<le> eaten + 1 \<and> walk_ok ai p (eaten + 1) \<and>
            (unbound (ai ! cur) \<longrightarrow> nth_next ai (eaten + 1 - 1) (int p) = int cur))"
        using p(3) w c by simp
      have fuel: "p + (length ai - cur) + 1 \<le> fuel" using Suc.prems(4) p(1) by linarith
      have en: "eaten + 1 \<le> nPos" using lt by simp
      show ?thesis unfolding step
        by (rule Suc.IH[OF pl Suc.prems(2) en fuel J'])
    qed
  qed
qed

lemma ScanWindow_first:
  assumes links: "links_ok ai (length ai)"
  shows "ScanWindow (2 * length ai + 2) ai nPos True start0 start0 0 = Inl IndexOutOfRange \<or>
         scan_post ai nPos (ScanWindow (2 * length ai + 2) ai nPos True start0 start0 0)"
    and "\<exists>j\<ge>start0. j < length ai \<and> state (ai ! j) \<noteq> Keyword \<and> state (ai ! j) \<noteq> Positional \<Longrightarrow>
         scan_post ai nPos (ScanWindow (2 * length ai + 2) ai nPos True start0 start0 0)"
proof -
  let ?n = "length ai"
  let ?s = "SkipBound ai start0"
  let ?inc = "if state (ai ! ?s) = Ignored then 0 else 1 :: nat"
  have fuel: "2 * ?n + 2 = Suc (2 * ?n + 1)" by simp
  have main: "?s < ?n \<or> \<not> (0 < nPos \<and> start0 < ?n) \<Longrightarrow>
       scan_post ai nPos (ScanWindow (2 * length ai + 2) ai nPos True start0 start0 0)"
  proof (cases "0 < nPos \<and> start0 < ?n")
    case False
    then have "ScanWindow (2 * ?n + 2) ai nPos True start0 start0 0 = Inr (start0, 0)"
      unfolding fuel by simp
    then show ?thesis by (simp add: scan_post_def)
  next
    case True
    assume "?s < ?n \<or> \<not> (0 < nPos \<and> start0 < ?n)"
    then have sl: "?s < ?n" using True by simp
    have step: "ScanWindow (2 * ?n + 2) ai nPos True start0 start0 0 =
                ScanWindow (2 * ?n + 1) ai nPos False ?s start0 ?inc"
      unfolding fuel using True sl by (simp add: Let_def)
    have st: "state (ai ! ?s) \<noteq> Keyword" "state (ai ! ?s) \<noteq> Positional"
      using SkipBound_stop[OF sl] by simp_all
    have J: "(state (ai ! ?s) = Ignored \<and> ?inc = 0) \<or>
       (unbound (ai ! ?s) \<and> 1 \<le> ?inc \<and> walk_ok ai ?s ?inc \<and>
        (unbound (ai ! start0) \<longrightarrow> nth_next ai (?inc - 1) (int ?s) = int start0))"
    proof (cases "state (ai ! ?s) = Ignored")
      case True
      then show ?thesis by simp
    next
      case False
      then have u: "unbound (ai ! ?s)" using st by (cases "state (ai ! ?s)") (auto simp: unbound_def)
      have w: "walk_ok ai ?s 1" using u sl by (simp add: walk_ok_def)
      have "unbound (ai ! start0) \<longrightarrow> ?s = start0"
        by (auto simp: unbound_def SkipBound_same)
      then show ?thesis using False u w by simp
    qed
    have f: "?s + (?n - start0) + 1 \<le> 2 * ?n + 1" using sl by linarith
    have e: "?inc \<le> nPos" using True by simp
    show ?thesis unfolding step
      using True by (intro ScanWindow_rest[OF links sl _ e f J]) simp
  qed
  show "ScanWindow (2 * length ai + 2) ai nPos True start0 start0 0 = Inl IndexOutOfRange \<or>
         scan_post ai nPos (ScanWindow (2 * length ai + 2) ai nPos True start0 start0 0)"
  proof (cases "?s < ?n \<or> \<not> (0 < nPos \<and> start0 < ?n)")
    case True
    then show ?thesis using main by simp
  next
    case False
    then have "ScanWindow (2 * ?n + 2) ai nPos True start0 start0 0 = Inl IndexOutOfRange"
      unfolding fuel by (simp add: Let_def)
    then show ?thesis by simp
  qed
  show "scan_post ai nPos (ScanWindow (2 * length ai + 2) ai nPos True start0 start0 0)"
    if "\<exists>j\<ge>start0. j < length ai \<and> state (ai ! j) \<noteq> Keyword \<and> state (ai ! j) \<noteq> Positional"
  proof -
    from that obtain j where "start0 \<le> j" "j < ?n" "state (ai ! j) \<noteq> Keyword" "state (ai ! j) \<noteq> Positional"
      by blast
    then have "?s \<le> j" by (rule SkipBound_le)
    then have "?s < ?n" using \<open>j < ?n\<close> by simp
    then show ?thesis using main by simp
  qed
qed

lemma kw_inv_bound_inv:
  assumes "kw_inv argInfos params (ai, res, length argInfos, fm, pnf)"
  shows "bound_inv argInfos ai res"
proof -
  from assms have len: "length ai = length argInfos"
    and st: "\<And>j. j < length argInfos \<Longrightarrow> state (ai ! j) = slot_state params (argInfos ! j) \<and> info (ai ! j) = Some (argInfos ! j)"
    and res: "\<And>k. res k = (if (\<exists>a \<in> set argInfos. name a = k) \<and> \<not> placeholder k
                       then kwParams params k else None)"
    by (auto simp: kw_inv_def)
  have a: "\<forall>j<length ai.
        info (ai ! j) = Some (argInfos ! j) \<and>
        (state (ai ! j) = Ignored \<longleftrightarrow> placeholder (name (argInfos ! j))) \<and>
        (state (ai ! j) = Keyword \<or> state (ai ! j) = Positional \<longrightarrow> res (name (argInfos ! j)) \<noteq> None) \<and>
        (mandatory (argInfos ! j) \<and> \<not> placeholder (name (argInfos ! j)) \<longrightarrow> state (ai ! j) \<noteq> NotFound)"
  proof (intro allI impI)
    fix j assume "j < length ai"
    then have j: "j < length argInfos" using len by simp
    then have m: "argInfos ! j \<in> set argInfos" by simp
    show "info (ai ! j) = Some (argInfos ! j) \<and>
        (state (ai ! j) = Ignored \<longleftrightarrow> placeholder (name (argInfos ! j))) \<and>
        (state (ai ! j) = Keyword \<or> state (ai ! j) = Positional \<longrightarrow> res (name (argInfos ! j)) \<noteq> None) \<and>
        (mandatory (argInfos ! j) \<and> \<not> placeholder (name (argInfos ! j)) \<longrightarrow> state (ai ! j) \<noteq> NotFound)"
      using st[OF j] res[of "name (argInfos ! j)"] m
      by (auto simp: slot_state_def split: if_splits)
  qed
  have b: "\<forall>k. res k \<noteq> None \<longrightarrow> \<not> placeholder k \<and> k \<in> name ` set argInfos"
    using res by (auto split: if_splits)
  show ?thesis unfolding bound_inv_def using len a b by simp
qed

lemma MapPositional_stop:
  "\<not> (idx < e \<and> c \<noteq> -1 \<and> size_t_cast c < length ai) \<Longrightarrow>
   MapPositional pos e idx c ai res = Inr (ai, res)"
  by (subst MapPositional.simps) auto

lemma MapPositional_skip:
  "idx < e \<Longrightarrow> c \<noteq> -1 \<Longrightarrow> size_t_cast c < length ai \<Longrightarrow> state (ai ! size_t_cast c) = Ignored \<Longrightarrow>
   MapPositional pos e idx c ai res =
   MapPositional pos e (idx + 1) (nextNotFound (ai ! size_t_cast c)) ai res"
  by (subst MapPositional.simps) (simp add: Let_def)

lemma MapPositional_bind:
  "idx < e \<Longrightarrow> c \<noteq> -1 \<Longrightarrow> size_t_cast c < length ai \<Longrightarrow> state (ai ! size_t_cast c) \<noteq> Ignored \<Longrightarrow>
   info (ai ! size_t_cast c) = Some a \<Longrightarrow> idx < length pos \<Longrightarrow>
   MapPositional pos e idx c ai res =
   MapPositional pos e (idx + 1) (nextNotFound (ai ! size_t_cast c))
     (ai[size_t_cast c := (ai ! size_t_cast c)\<lparr>state := Positional\<rparr>]) (res(name a \<mapsto> pos ! idx))"
  by (subst MapPositional.simps) (simp add: Let_def)

lemma bound_inv_bind:
  assumes inv: "bound_inv argInfos ai res" and c: "c < length ai" and ni: "state (ai ! c) \<noteq> Ignored"
  shows "bound_inv argInfos (ai[c := (ai ! c)\<lparr>state := Positional\<rparr>]) (res(name (argInfos ! c) \<mapsto> v))"
proof -
  let ?ai = "ai[c := (ai ! c)\<lparr>state := Positional\<rparr>]"
  let ?res = "res(name (argInfos ! c) \<mapsto> v)"
  from inv have len: "length ai = length argInfos"
    and sl: "\<And>j. j < length ai \<Longrightarrow>
        info (ai ! j) = Some (argInfos ! j) \<and>
        (state (ai ! j) = Ignored \<longleftrightarrow> placeholder (name (argInfos ! j))) \<and>
        (state (ai ! j) = Keyword \<or> state (ai ! j) = Positional \<longrightarrow> res (name (argInfos ! j)) \<noteq> None) \<and>
        (mandatory (argInfos ! j) \<and> \<not> placeholder (name (argInfos ! j)) \<longrightarrow> state (ai ! j) \<noteq> NotFound)"
    and dom: "\<And>k. res k \<noteq> None \<Longrightarrow> \<not> placeholder k \<and> k \<in> name ` set argInfos"
    unfolding bound_inv_def by blast+
  have np: "\<not> placeholder (name (argInfos ! c))" using sl[OF c] ni by simp
  have mem: "argInfos ! c \<in> set argInfos" using c len by simp
  have a: "\<forall>j<length ?ai.
        info (?ai ! j) = Some (argInfos ! j) \<and>
        (state (?ai ! j) = Ignored \<longleftrightarrow> placeholder (name (argInfos ! j))) \<and>
        (state (?ai ! j) = Keyword \<or> state (?ai ! j) = Positional \<longrightarrow> ?res (name (argInfos ! j)) \<noteq> None) \<and>
        (mandatory (argInfos ! j) \<and> \<not> placeholder (name (argInfos ! j)) \<longrightarrow> state (?ai ! j) \<noteq> NotFound)"
  proof (intro allI impI)
    fix j assume "j < length ?ai"
    then have j: "j < length ai" by simp
    show "info (?ai ! j) = Some (argInfos ! j) \<and>
        (state (?ai ! j) = Ignored \<longleftrightarrow> placeholder (name (argInfos ! j))) \<and>
        (state (?ai ! j) = Keyword \<or> state (?ai ! j) = Positional \<longrightarrow> ?res (name (argInfos ! j)) \<noteq> None) \<and>
        (mandatory (argInfos ! j) \<and> \<not> placeholder (name (argInfos ! j)) \<longrightarrow> state (?ai ! j) \<noteq> NotFound)"
    proof (cases "j = c")
      case True
      then show ?thesis using sl[OF c] c np by simp
    next
      case False
      then have "?ai ! j = ai ! j" by simp
      then show ?thesis using sl[OF j] by simp
    qed
  qed
  have b: "\<forall>k. ?res k \<noteq> None \<longrightarrow> \<not> placeholder k \<and> k \<in> name ` set argInfos"
    using dom np mem by (auto split: if_splits)
  show ?thesis unfolding bound_inv_def using len a b by simp
qed

lemma MapPositional_bound_inv:
  "bound_inv argInfos ai res \<Longrightarrow> MapPositional pos e idx c ai res = Inr (ai', res') \<Longrightarrow>
   bound_inv argInfos ai' res'"
proof (induction pos e idx c ai res rule: MapPositional.induct)
  case (1 pos e idx c ai res)
  show ?case
  proof (cases "idx < e \<and> c \<noteq> -1 \<and> size_t_cast c < length ai")
    case False
    then have "MapPositional pos e idx c ai res = Inr (ai, res)" by (rule MapPositional_stop)
    then show ?thesis using 1(3,4) by simp
  next
    case True
    let ?c = "size_t_cast c"
    show ?thesis
    proof (cases "state (ai ! ?c) = Ignored")
      case ig: True
      have "MapPositional pos e idx c ai res =
            MapPositional pos e (idx + 1) (nextNotFound (ai ! ?c)) ai res"
        using True ig by (intro MapPositional_skip) simp_all
      then have "MapPositional pos e (idx + 1) (nextNotFound (ai ! ?c)) ai res = Inr (ai', res')"
        using 1(4) by simp
      then show ?thesis by (rule 1(1)[OF True refl refl ig 1(3)])
    next
      case ni: False
      have inf: "info (ai ! ?c) = Some (argInfos ! ?c)"
        using 1(3) True unfolding bound_inv_def by blast
      show ?thesis
      proof (cases "idx < length pos")
        case False
        then have "MapPositional pos e idx c ai res = Inl IndexOutOfRange"
          using True ni inf by (subst MapPositional.simps) (simp add: Let_def)
        then show ?thesis using 1(4) by simp
      next
        case lt: True
        have step: "MapPositional pos e idx c ai res =
            MapPositional pos e (idx + 1) (nextNotFound (ai ! ?c))
              (ai[?c := (ai ! ?c)\<lparr>state := Positional\<rparr>]) (res(name (argInfos ! ?c) \<mapsto> pos ! idx))"
          using True ni inf lt by (intro MapPositional_bind) simp_all
        have inv': "bound_inv argInfos (ai[?c := (ai ! ?c)\<lparr>state := Positional\<rparr>])
                      (res(name (argInfos ! ?c) \<mapsto> pos ! idx))"
          using 1(3) True ni by (intro bound_inv_bind) simp_all
        have "MapPositional pos e (idx + 1) (nextNotFound (ai ! ?c))
              (ai[?c := (ai ! ?c)\<lparr>state := Positional\<rparr>]) (res(name (argInfos ! ?c) \<mapsto> pos ! idx))
              = Inr (ai', res')"
          using 1(4) step by simp
        then show ?thesis
          by (rule 1(2)[OF True refl refl ni inf lt inv'])
      qed
    qed
  qed
qed

lemma MapPositional_total:
  "\<forall>j<length ai. info (ai ! j) \<noteq> None \<Longrightarrow> e \<le> length pos \<Longrightarrow>
   \<exists>r. MapPositional pos e idx c ai res = Inr r"
proof (induction pos e idx c ai res rule: MapPositional.induct)
  case (1 pos e idx c ai res)
  show ?case
  proof (cases "idx < e \<and> c \<noteq> -1 \<and> size_t_cast c < length ai")
    case False
    then have "MapPositional pos e idx c ai res = Inr (ai, res)" by (rule MapPositional_stop)
    then show ?thesis by simp
  next
    case True
    let ?c = "size_t_cast c"
    show ?thesis
    proof (cases "state (ai ! ?c) = Ignored")
      case ig: True
      have "MapPositional pos e idx c ai res =
            MapPositional pos e (idx + 1) (nextNotFound (ai ! ?c)) ai res"
        using True ig by (intro MapPositional_skip) simp_all
      moreover have "\<exists>r. MapPositional pos e (idx + 1) (nextNotFound (ai ! ?c)) ai res = Inr r"
        by (rule 1(1)[OF True refl refl ig 1(3,4)])
      ultimately show ?thesis by simp
    next
      case ni: False
      obtain a where inf: "info (ai ! ?c) = Some a" using 1(3) True by auto
      have lt: "idx < length pos" using True 1(4) by simp
      have step: "MapPositional pos e idx c ai res =
            MapPositional pos e (idx + 1) (nextNotFound (ai ! ?c))
              (ai[?c := (ai ! ?c)\<lparr>state := Positional\<rparr>]) (res(name a \<mapsto> pos ! idx))"
        using True ni inf lt by (intro MapPositional_bind) simp_all
      have infos: "\<forall>j<length (ai[?c := (ai ! ?c)\<lparr>state := Positional\<rparr>]).
                     info ((ai[?c := (ai ! ?c)\<lparr>state := Positional\<rparr>]) ! j) \<noteq> None"
        using 1(3) True by (auto simp: nth_list_update)
      have "\<exists>r. MapPositional pos e (idx + 1) (nextNotFound (ai ! ?c))
              (ai[?c := (ai ! ?c)\<lparr>state := Positional\<rparr>]) (res(name a \<mapsto> pos ! idx)) = Inr r"
        by (rule 1(2)[OF True refl refl ni inf lt infos 1(4)])
      then show ?thesis unfolding step .
    qed
  qed
qed

lemma FillDefaults_total:
  "\<forall>x\<in>set xs. info x \<noteq> None \<Longrightarrow> \<exists>r. FillDefaults xs res ok = Inr r"
proof (induction xs arbitrary: res ok)
  case Nil
  then show ?case by simp
next
  case (Cons x xs)
  then obtain a where a: "info x = Some a" by auto
  have "\<forall>x\<in>set xs. info x \<noteq> None" using Cons(2) by simp
  then have ih: "\<And>res ok. \<exists>r. FillDefaults xs res ok = Inr r" using Cons(1) by blast
  show ?case using a ih by (cases "state x") simp_all
qed

lemma FillDefaults_props:
  "FillDefaults xs res ok = Inr (res', ok') \<Longrightarrow>
     (\<forall>k. res k \<noteq> None \<longrightarrow> res' k \<noteq> None) \<and>
     (ok' \<longleftrightarrow> ok \<and> (\<forall>x\<in>set xs. state x \<noteq> NotFoundMandatory)) \<and>
     (\<forall>k. (\<forall>x\<in>set xs. state x = NotFound \<longrightarrow> (\<forall>a. info x = Some a \<longrightarrow> name a \<noteq> k)) \<longrightarrow> res' k = res k)"
proof (induction xs arbitrary: res ok)
  case Nil
  then show ?case by simp
next
  case (Cons x xs)
  show ?case
  proof (cases "state x")
    case NotFound
    then obtain a where a: "info x = Some a"
      using Cons(2) by (cases "info x") simp_all
    show ?thesis
    proof (cases "IsEmpty (defaultVal a)")
      case True
      then have "FillDefaults xs res ok = Inr (res', ok')" using Cons(2) NotFound a by simp
      from Cons(1)[OF this] show ?thesis using NotFound by simp
    next
      case False
      then have "FillDefaults xs (res(name a \<mapsto> ConstantExpression (defaultVal a))) ok = Inr (res', ok')"
        using Cons(2) NotFound a by simp
      from Cons(1)[OF this] show ?thesis using NotFound a by (auto split: if_splits)
    qed
  next
    case NotFoundMandatory
    then have "FillDefaults xs res False = Inr (res', ok')" using Cons(2) by simp
    from Cons(1)[OF this] show ?thesis using NotFoundMandatory by simp
  next
    case Keyword
    then have "FillDefaults xs res ok = Inr (res', ok')" using Cons(2) by simp
    from Cons(1)[OF this] show ?thesis using Keyword by simp
  next
    case Positional
    then have "FillDefaults xs res ok = Inr (res', ok')" using Cons(2) by simp
    from Cons(1)[OF this] show ?thesis using Positional by simp
  next
    case Ignored
    then have "FillDefaults xs res ok = Inr (res', ok')" using Cons(2) by simp
    from Cons(1)[OF this] show ?thesis using Ignored by simp
  qed
qed

lemma FillDefaults_dom:
  "FillDefaults xs res ok = Inr (res', ok') \<Longrightarrow> res' k \<noteq> None \<Longrightarrow>
   res k \<noteq> None \<or> (\<exists>x\<in>set xs. state x = NotFound \<and> (\<exists>a. info x = Some a \<and> name a = k))"
  using FillDefaults_props[of xs res ok res' ok'] by force

lemma FindKwArgs_result:
  obtains ai res fm pnf where
    "FindKwArgs argInfos params (replicate (length argInfos) ArgInfo_init, Map.empty, 0, -1, -1)
       = (ai, res, length argInfos, fm, pnf)"
    "kw_inv argInfos params (ai, res, length argInfos, fm, pnf)"
proof -
  let ?r = "FindKwArgs argInfos params (replicate (length argInfos) ArgInfo_init, Map.empty, 0, -1, -1)"
  obtain ai res i fm pnf where r: "?r = (ai, res, i, fm, pnf)" by (metis prod_cases5)
  have "kw_inv argInfos params ?r \<and> fst (snd (snd ?r)) = length argInfos"
    by (rule FindKwArgs_inv[OF kw_inv_init]) simp
  then have k: "kw_inv argInfos params (ai, res, i, fm, pnf)" and ii: "i = length argInfos"
    unfolding r by auto
  show ?thesis by (rule that[OF r[unfolded ii] k[unfolded ii]])
qed

lemma ParseCallParamsImpl_unfold:
  assumes "FindKwArgs argInfos params (replicate (length argInfos) ArgInfo_init, Map.empty, 0, -1, -1)
       = (ai, res, i, fm, pnf)"
  shows "ParseCallParamsImpl argInfos params =
     (case ScanWindow (2 * length argInfos + 2) ai (length (posParams params)) True
                  (window_start fm) (window_start fm) 0 of
             Inl e \<Rightarrow> Inl e
           | Inr (s, eaten) \<Rightarrow>
               (case MapPositional (posParams params) eaten 0 (int s) ai res of
                  Inl e \<Rightarrow> Inl e
                | Inr (ai', res') \<Rightarrow>
                    (case FillDefaults ai' res' True of
                       Inl e \<Rightarrow> Inl e
                     | Inr (res'', isSucceeded) \<Rightarrow>
                         Inr (\<lparr>args = res'',
                               extraKwArgs = (\<lambda>k. case res'' k of Some _ \<Rightarrow> None
                                                   | None \<Rightarrow> kwParams params k),
                               extraPosArgs = drop eaten (posParams params)\<rparr>,
                              isSucceeded))))"
  unfolding ParseCallParamsImpl_def assms window_start_def by (simp add: Let_def)

lemma ParseCallParamsImpl_Inr:
  assumes "ParseCallParamsImpl argInfos params = Inr (parsed, ok)"
  obtains ai res fm pnf s eaten ai' res' where
    "kw_inv argInfos params (ai, res, length argInfos, fm, pnf)"
    "ScanWindow (2 * length argInfos + 2) ai (length (posParams params)) True
                  (window_start fm) (window_start fm) 0 = Inr (s, eaten)"
    "MapPositional (posParams params) eaten 0 (int s) ai res = Inr (ai', res')"
    "FillDefaults ai' res' True = Inr (args parsed, ok)"
    "extraKwArgs parsed = (\<lambda>k. case args parsed k of Some _ \<Rightarrow> None | None \<Rightarrow> kwParams params k)"
    "extraPosArgs parsed = drop eaten (posParams params)"
proof -
  obtain ai res fm pnf where
    r: "FindKwArgs argInfos params (replicate (length argInfos) ArgInfo_init, Map.empty, 0, -1, -1)
       = (ai, res, length argInfos, fm, pnf)"
    and inv: "kw_inv argInfos params (ai, res, length argInfos, fm, pnf)"
    by (rule FindKwArgs_result)
  note u = ParseCallParamsImpl_unfold[OF r]
  obtain s eaten where sw: "ScanWindow (2 * length argInfos + 2) ai (length (posParams params)) True
                  (window_start fm) (window_start fm) 0 = Inr (s, eaten)"
    using assms unfolding u by (auto split: sum.splits)
  have u2: "ParseCallParamsImpl argInfos params =
       (case MapPositional (posParams params) eaten 0 (int s) ai res of
                  Inl e \<Rightarrow> Inl e
                | Inr (ai', res') \<Rightarrow>
                    (case FillDefaults ai' res' True of
                       Inl e \<Rightarrow> Inl e
                     | Inr (res'', isSucceeded) \<Rightarrow>
                         Inr (\<lparr>args = res'',
                               extraKwArgs = (\<lambda>k. case res'' k of Some _ \<Rightarrow> None
                                                   | None \<Rightarrow> kwParams params k),
                               extraPosArgs = drop eaten (posParams params)\<rparr>,
                              isSucceeded)))"
    unfolding u sw by simp
  obtain ai' res' where mp: "MapPositional (posParams params) eaten 0 (int s) ai res = Inr (ai', res')"
    using assms unfolding u2 by (auto split: sum.splits)
  have u3: "ParseCallParamsImpl argInfos params =
                    (case FillDefaults ai' res' True of
                       Inl e \<Rightarrow> Inl e
                     | Inr (res'', isSucceeded) \<Rightarrow>
                         Inr (\<lparr>args = res'',
                               extraKwArgs = (\<lambda>k. case res'' k of Some _ \<Rightarrow> None
                                                   | None \<Rightarrow> kwParams params k),
                               extraPosArgs = drop eaten (posParams params)\<rparr>,
                              isSucceeded))"
    unfolding u2 mp by simp
  obtain res'' ok' where fd: "FillDefaults ai' res' True = Inr (res'', ok')"
    using assms unfolding u3 by (auto split: sum.splits)
  have p: "parsed = \<lparr>args = res'',
                               extraKwArgs = (\<lambda>k. case res'' k of Some _ \<Rightarrow> None
                                                   | None \<Rightarrow> kwParams params k),
                               extraPosArgs = drop eaten (posParams params)\<rparr>" and o: "ok = ok'"
    using assms unfolding u3 fd by simp_all
  have fd': "FillDefaults ai' res' True = Inr (args parsed, ok)" using fd p o by simp
  show ?thesis by (rule that[OF inv sw mp fd']) (simp_all add: p)
qed

lemma walk_slot_props:
  assumes "walk_ok ai s e" "k < e"
  shows "nth_next ai k (int s) = int (walk_slot ai s k)" "walk_slot ai s k < length ai"
    "unbound (ai ! walk_slot ai s k)"
  using assms by (simp_all add: walk_ok_def walk_slot_def)

lemma walk_slot_Suc:
  assumes links: "links_ok ai (length ai)" and w: "walk_ok ai s e" and k: "Suc k < e"
  shows "walk_slot ai s k < walk_slot ai s (Suc k)"
    and "nextNotFound (ai ! walk_slot ai s k) = int (walk_slot ai s (Suc k))"
proof -
  have k': "k < e" using k by simp
  note a = walk_slot_props[OF w k'] and b = walk_slot_props[OF w k]
  have n: "nth_next ai (Suc k) (int s) = nextNotFound (ai ! walk_slot ai s k)"
    using a(1) by simp
  then show eq: "nextNotFound (ai ! walk_slot ai s k) = int (walk_slot ai s (Suc k))"
    using b(1) by simp
  then have "nextNotFound (ai ! walk_slot ai s k) \<noteq> -1" by simp
  from link_unbound_next[OF links a(2) this] eq
  show "walk_slot ai s k < walk_slot ai s (Suc k)" by auto
qed

lemma walk_slot_mono:
  assumes links: "links_ok ai (length ai)" and w: "walk_ok ai s e"
  shows "k < k' \<Longrightarrow> k' < e \<Longrightarrow> walk_slot ai s k < walk_slot ai s k'"
proof (induction k')
  case 0
  then show ?case by simp
next
  case (Suc k')
  have step: "walk_slot ai s k' < walk_slot ai s (Suc k')"
    using walk_slot_Suc(1)[OF links w Suc(3)] .
  show ?case
  proof (cases "k = k'")
    case True
    then show ?thesis using step by simp
  next
    case False
    then have "k < k'" using Suc(2) by simp
    then have "walk_slot ai s k < walk_slot ai s k'" using Suc(1,3) by simp
    then show ?thesis using step by simp
  qed
qed

lemma distinct_names:
  assumes "distinct (map name argInfos)" "i < length argInfos" "j < length argInfos" "i \<noteq> j"
  shows "name (argInfos ! i) \<noteq> name (argInfos ! j)"
  using assms by (metis distinct_conv_nth length_map nth_map)

lemma MapPositional_walk:
  assumes links: "links_ok ai0 (length ai0)" and w: "walk_ok ai0 s e" and e: "e \<le> length pos"
    and d: "distinct (map name argInfos)" and la: "length argInfos = length ai0"
  shows "n = e - idx \<Longrightarrow> idx \<le> e \<Longrightarrow> length ai = length ai0 \<Longrightarrow>
     (\<forall>j<length ai0. nextNotFound (ai ! j) = nextNotFound (ai0 ! j) \<and> info (ai ! j) = Some (argInfos ! j)) \<Longrightarrow>
     (idx < e \<longrightarrow> (\<forall>j. walk_slot ai0 s idx \<le> j \<and> j < length ai0 \<longrightarrow> state (ai ! j) = state (ai0 ! j))) \<Longrightarrow>
     c = nth_next ai0 idx (int s) \<Longrightarrow>
     MapPositional pos e idx c ai res = Inr (ai', res') \<Longrightarrow>
     (\<forall>k. idx \<le> k \<and> k < e \<longrightarrow>
         res' (name (argInfos ! walk_slot ai0 s k)) = Some (pos ! k) \<and>
         state (ai' ! walk_slot ai0 s k) = Positional) \<and>
     (\<forall>key. (\<forall>k. idx \<le> k \<and> k < e \<longrightarrow> name (argInfos ! walk_slot ai0 s k) \<noteq> key) \<longrightarrow> res' key = res key) \<and>
     (\<forall>j<length ai0. state (ai ! j) = Positional \<longrightarrow> state (ai' ! j) = Positional) \<and>
     length ai' = length ai0 \<and>
     (\<forall>j<length ai0. info (ai' ! j) = Some (argInfos ! j))"
proof (induction n arbitrary: idx c ai res)
  case 0
  then have "\<not> idx < e" by simp
  then have "MapPositional pos e idx c ai res = Inr (ai, res)" by (intro MapPositional_stop) simp
  then have "ai' = ai" "res' = res" using 0(7) by simp_all
  then show ?case using \<open>\<not> idx < e\<close> 0(3,4) by auto
next
  case (Suc n)
  note len = Suc.prems(3) and same = Suc.prems(4) and fresh = Suc.prems(5)
    and c = Suc.prems(6) and run = Suc.prems(7)
  have lt: "idx < e" using Suc.prems(1) by simp
  let ?c = "walk_slot ai0 s idx"
  note sp = walk_slot_props[OF w lt]
  have cl: "?c < length ai" using sp(2) len by simp
  have ceq: "c = int ?c" using c sp(1) by simp
  then have cast: "size_t_cast c = ?c" "c \<noteq> -1" by (simp_all add: size_t_cast_def)
  have st: "state (ai ! ?c) = state (ai0 ! ?c)" using fresh lt sp(2) by simp
  have ni: "state (ai ! ?c) \<noteq> Ignored" using st sp(3) by (auto simp: unbound_def)
  have inf: "info (ai ! ?c) = Some (argInfos ! ?c)" using same sp(2) by simp
  have ltp: "idx < length pos" using lt e by simp
  let ?ai2 = "ai[?c := (ai ! ?c)\<lparr>state := Positional\<rparr>]"
  let ?res2 = "res(name (argInfos ! ?c) \<mapsto> pos ! idx)"
  let ?c' = "nextNotFound (ai ! ?c)"
  have step: "MapPositional pos e idx c ai res = MapPositional pos e (idx + 1) ?c' ?ai2 ?res2"
    using MapPositional_bind[of idx e c ai "argInfos ! ?c" pos res] lt cast cl ni inf ltp by simp
  have run': "MapPositional pos e (Suc idx) ?c' ?ai2 ?res2 = Inr (ai', res')"
    using run step by simp
  have c': "?c' = nth_next ai0 (Suc idx) (int s)"
    using same sp(1,2) by simp
  have len2: "length ?ai2 = length ai0" using len by simp
  have same2: "\<forall>j<length ai0. nextNotFound (?ai2 ! j) = nextNotFound (ai0 ! j) \<and> info (?ai2 ! j) = Some (argInfos ! j)"
    using same cl by (auto simp: nth_list_update)
  have fresh2: "Suc idx < e \<longrightarrow>
      (\<forall>j. walk_slot ai0 s (Suc idx) \<le> j \<and> j < length ai0 \<longrightarrow> state (?ai2 ! j) = state (ai0 ! j))"
  proof (intro impI allI)
    fix j assume si: "Suc idx < e" and j: "walk_slot ai0 s (Suc idx) \<le> j \<and> j < length ai0"
    have "?c < walk_slot ai0 s (Suc idx)" using walk_slot_Suc(1)[OF links w si] .
    then have "?c < j" using j by simp
    then have "?ai2 ! j = ai ! j" by simp
    moreover have "state (ai ! j) = state (ai0 ! j)" using fresh lt j \<open>?c < j\<close> by simp
    ultimately show "state (?ai2 ! j) = state (ai0 ! j)" by simp
  qed
  have n: "n = e - Suc idx" using Suc.prems(1) by simp
  have le: "Suc idx \<le> e" using lt by simp
  note IH = Suc.IH[OF n le len2 same2 fresh2 c' run']
  from IH have A': "\<And>k. Suc idx \<le> k \<Longrightarrow> k < e \<Longrightarrow>
         res' (name (argInfos ! walk_slot ai0 s k)) = Some (pos ! k) \<and>
         state (ai' ! walk_slot ai0 s k) = Positional"
    and B': "\<And>key. (\<And>k. Suc idx \<le> k \<Longrightarrow> k < e \<Longrightarrow> name (argInfos ! walk_slot ai0 s k) \<noteq> key) \<Longrightarrow> res' key = ?res2 key"
    and C': "\<And>j. j < length ai0 \<Longrightarrow> state (?ai2 ! j) = Positional \<Longrightarrow> state (ai' ! j) = Positional"
    and D': "length ai' = length ai0"
    and E': "\<forall>j<length ai0. info (ai' ! j) = Some (argInfos ! j)"
    by blast+
  have other: "name (argInfos ! walk_slot ai0 s k) \<noteq> name (argInfos ! ?c)" if "Suc idx \<le> k" "k < e" for k
  proof -
    have "idx < k" using that by simp
    then have "?c < walk_slot ai0 s k" using walk_slot_mono[OF links w _ that(2)] by simp
    moreover have "walk_slot ai0 s k < length argInfos" using walk_slot_props(2)[OF w that(2)] la by simp
    moreover have "?c < length argInfos" using sp(2) la by simp
    ultimately show ?thesis using distinct_names[OF d] by simp
  qed
  have here: "res' (name (argInfos ! ?c)) = Some (pos ! idx)"
    using B'[of "name (argInfos ! ?c)"] other by simp
  have here_st: "state (ai' ! ?c) = Positional"
    using C'[of ?c] sp(2) cl by simp
  have A: "\<forall>k. idx \<le> k \<and> k < e \<longrightarrow>
         res' (name (argInfos ! walk_slot ai0 s k)) = Some (pos ! k) \<and>
         state (ai' ! walk_slot ai0 s k) = Positional"
  proof (intro allI impI)
    fix k assume k: "idx \<le> k \<and> k < e"
    show "res' (name (argInfos ! walk_slot ai0 s k)) = Some (pos ! k) \<and>
         state (ai' ! walk_slot ai0 s k) = Positional"
    proof (cases "k = idx")
      case True
      then show ?thesis using here here_st by simp
    next
      case False
      then show ?thesis using A'[of k] k by simp
    qed
  qed
  have B: "\<forall>key. (\<forall>k. idx \<le> k \<and> k < e \<longrightarrow> name (argInfos ! walk_slot ai0 s k) \<noteq> key) \<longrightarrow> res' key = res key"
  proof (intro allI impI)
    fix key assume a: "\<forall>k. idx \<le> k \<and> k < e \<longrightarrow> name (argInfos ! walk_slot ai0 s k) \<noteq> key"
    then have "res' key = ?res2 key" by (intro B') simp
    moreover have "name (argInfos ! ?c) \<noteq> key" using a lt by simp
    ultimately show "res' key = res key" by simp
  qed
  have C: "\<forall>j<length ai0. state (ai ! j) = Positional \<longrightarrow> state (ai' ! j) = Positional"
  proof (intro allI impI)
    fix j assume j: "j < length ai0" and p: "state (ai ! j) = Positional"
    have "state (?ai2 ! j) = Positional" using p cl by (simp add: nth_list_update)
    then show "state (ai' ! j) = Positional" using C'[OF j] by simp
  qed
  show ?case using A B C D' E' by blast
qed

lemma args_dom:
  assumes b: "bound_inv argInfos ai' res'" and fd: "FillDefaults ai' res' ok0 = Inr (res'', ok)"
    and k: "res'' k \<noteq> None"
  shows "\<not> placeholder k \<and> k \<in> name ` set argInfos"
proof -
  from FillDefaults_dom[OF fd k] show ?thesis
  proof
    assume "res' k \<noteq> None"
    then show ?thesis using b unfolding bound_inv_def by blast
  next
    assume "\<exists>x\<in>set ai'. state x = NotFound \<and> (\<exists>a. info x = Some a \<and> name a = k)"
    then obtain j a where j: "j < length ai'" "state (ai' ! j) = NotFound" "info (ai' ! j) = Some a" "name a = k"
      by (auto simp: in_set_conv_nth)
    from b j(1) have "info (ai' ! j) = Some (argInfos ! j)"
      "state (ai' ! j) = Ignored \<longleftrightarrow> placeholder (name (argInfos ! j))" "length ai' = length argInfos"
      unfolding bound_inv_def by blast+
    then show ?thesis using j by auto
  qed
qed

section \<open>Binary operators\<close>

text \<open>
  What \<^verbatim>\<open>BinaryExpression::Evaluate\<close> computes for \<^verbatim>\<open>and\<close> and \<^verbatim>\<open>or\<close>, for all
  operands: the left operand is evaluated, then the right operand in the context the left
  one leaves, and the result is the conjunction (disjunction) of the truthiness of the two
  values. An abort of either operand is the abort of the whole.
\<close>

lemma logical_operators_evaluate_both_operands:
  "BinaryExpression_Evaluate ext LogicalAnd L R context =
     andThen (L context) (\<lambda>(leftVal, c1).
     andThen (R c1) (\<lambda>(rightVal, c2).
       Inr (BoolValue (ConvertToBool ext leftVal \<and> ConvertToBool ext rightVal), c2))) \<and>
   BinaryExpression_Evaluate ext LogicalOr L R context =
     andThen (L context) (\<lambda>(leftVal, c1).
     andThen (R c1) (\<lambda>(rightVal, c2).
       Inr (BoolValue (ConvertToBool ext leftVal \<or> ConvertToBool ext rightVal), c2)))"
  by (auto simp: BinaryExpression_Evaluate_def andThen_def Let_def split: sum.splits prod.splits)

text \<open>
  C1. The claim says that \<^verbatim>\<open>false and R\<close> and \<^verbatim>\<open>true or R\<close> never evaluate
  \<^verbatim>\<open>R\<close>. The code does evaluate it: evaluating \<^verbatim>\<open>false and f()\<close>, where \<^verbatim>\<open>f\<close> is a
  user callable that records its call, leaves the record of the call in the context, and so
  does \<^verbatim>\<open>true or f()\<close>. \<^verbatim>\<open>rightVal\<close> is computed before the \<^verbatim>\<open>switch\<close> for every
  operator but \<^verbatim>\<open>in\<close>; the cases of \<^verbatim>\<open>and\<close> and \<^verbatim>\<open>or\<close> are written in the
  short-circuit form, but what they skip is only the conversion of the value already
  computed.
\<close>

theorem logical_and_or_evaluate_right_operand:
  "BinaryExpression_Evaluate TracingExternals LogicalAnd
     (ConstantExpression (BoolValue False))
     (CallExpression_Evaluate TracingExternals
        (ConstantExpression (Callable UserCallable Expression 0))
        \<lparr>kwParams = Map.empty, posParams = []\<rparr>)
     \<lparr>scopes = [], effects = []\<rparr>
   = Inr (BoolValue False, \<lparr>scopes = [], effects = [''called'']\<rparr>) \<and>
   BinaryExpression_Evaluate TracingExternals LogicalOr
     (ConstantExpression (BoolValue True))
     (CallExpression_Evaluate TracingExternals
        (ConstantExpression (Callable UserCallable Expression 0))
        \<lparr>kwParams = Map.empty, posParams = []\<rparr>)
     \<lparr>scopes = [], effects = []\<rparr>
   = Inr (BoolValue True, \<lparr>scopes = [], effects = [''called'']\<rparr>)"
  by (simp add: BinaryExpression_Evaluate_def call_eval ConvertToBool_def TracingExternals_def)

section \<open>The global function \<^verbatim>\<open>range\<close>\<close>

lemma range_binds_three_positionals:
  "ParseCallParams range_schema \<lparr>kwParams = Map.empty, posParams = [e1, e2, e3]\<rparr>
   = Inr (\<lparr>args = [''start'' \<mapsto> e1, ''stop'' \<mapsto> e2, ''step'' \<mapsto> e3],
          extraKwArgs = Map.empty, extraPosArgs = []\<rparr>, True)"
  by (simp add: range_schema_def binder_eval; auto simp: fun_eq_iff)

lemma range_binds_two_positionals:
  "ParseCallParams range_schema \<lparr>kwParams = Map.empty, posParams = [e1, e2]\<rparr>
   = Inr (\<lparr>args = [''start'' \<mapsto> e1, ''stop'' \<mapsto> e2],
          extraKwArgs = Map.empty, extraPosArgs = []\<rparr>, True)"
  by (simp add: range_schema_def binder_eval IsEmpty_def; auto simp: fun_eq_iff)

text \<open>
  The 64-bit arithmetic of \<^verbatim>\<open>range\<close> at its limits: the distance from the least to the
  greatest integer wraps around to \<open>-1\<close> and the list is empty; the distance \<open>-2^63\<close>
  divided by the step \<open>-1\<close> has no quotient.
\<close>

lemma range_distance_wraps_around:
  "CallGlobalRange ext
     \<lparr>kwParams = Map.empty,
      posParams = [ConstantExpression (IntValue (- (2 ^ 63))),
                   ConstantExpression (IntValue (2 ^ 63 - 1))]\<rparr> c
   = Inr (GeneratedList 0 (\<lambda>idx. IntValue (int64_wrap (- (2 ^ 63) + 1 * int idx))), c)"
  by (simp add: CallGlobalRange_def range_binds_two_positionals)
     (simp add: andThen_def EvaluateOrEmpty_def ConstantExpression_def IntegerEvaluator_def
        ConvertToInt_def trunc_div_def int64_wrap_def)

lemma range_quotient_overflows:
  "CallGlobalRange ext
     \<lparr>kwParams = Map.empty,
      posParams = [ConstantExpression (IntValue 0),
                   ConstantExpression (IntValue (- (2 ^ 63))),
                   ConstantExpression (IntValue (- 1))]\<rparr> c
   = Inl DivisionOverflow"
  by (simp add: CallGlobalRange_def range_binds_three_positionals)
     (simp add: andThen_def EvaluateOrEmpty_def ConstantExpression_def IntegerEvaluator_def
        ConvertToInt_def trunc_div_def int64_wrap_def)

text \<open>
  C2. \<^verbatim>\<open>range(1, 10, 2)\<close> evaluates to a generated list of four elements, 1, 3, 5 and 7:
  the number of elements is the quotient \<open>(10 - 1) / 2\<close> rounded toward zero, so the
  element 9 the claim lists is missing.
\<close>

theorem range_1_10_2_has_four_elements:
  "CallExpression_Evaluate ext (ValueRefExpression ''range'')
     \<lparr>kwParams = Map.empty,
      posParams = [ConstantExpression (IntValue 1), ConstantExpression (IntValue 10),
                   ConstantExpression (IntValue 2)]\<rparr>
     \<lparr>scopes = [SetupGlobals Map.empty], effects = []\<rparr>
   = Inr (GeneratedList 4 (\<lambda>idx. IntValue (int64_wrap (1 + 2 * int idx))),
          \<lparr>scopes = [SetupGlobals Map.empty], effects = []\<rparr>) \<and>
   ListItems (GeneratedList 4 (\<lambda>idx. IntValue (int64_wrap (1 + 2 * int idx))))
   = [IntValue 1, IntValue 3, IntValue 5, IntValue 7]"
proof -
  have "CallGlobalRange ext
     \<lparr>kwParams = Map.empty,
      posParams = [ConstantExpression (IntValue 1), ConstantExpression (IntValue 10),
                   ConstantExpression (IntValue 2)]\<rparr> c
   = Inr (GeneratedList 4 (\<lambda>idx. IntValue (int64_wrap (1 + 2 * int idx))), c)" for c
    by (simp add: CallGlobalRange_def range_binds_three_positionals)
       (simp add: andThen_def EvaluateOrEmpty_def ConstantExpression_def IntegerEvaluator_def
          ConvertToInt_def trunc_div_def int64_wrap_def)
  then have "CallExpression_Evaluate ext (ValueRefExpression ''range'')
     \<lparr>kwParams = Map.empty,
      posParams = [ConstantExpression (IntValue 1), ConstantExpression (IntValue 10),
                   ConstantExpression (IntValue 2)]\<rparr>
     \<lparr>scopes = [SetupGlobals Map.empty], effects = []\<rparr>
   = Inr (GeneratedList 4 (\<lambda>idx. IntValue (int64_wrap (1 + 2 * int idx))),
          \<lparr>scopes = [SetupGlobals Map.empty], effects = []\<rparr>)"
    by (simp add: CallExpression_Evaluate_def ValueRefExpression_def SetupGlobals_def andThen_def
          ConvertToInt_def)
  moreover have "ListItems (GeneratedList 4 (\<lambda>idx. IntValue (int64_wrap (1 + 2 * int idx))))
   = [IntValue 1, IntValue 3, IntValue 5, IntValue 7]"
    by (simp add: ListItems_def upt_rec int64_wrap_def)
  ultimately show ?thesis by simp
qed

section \<open>The binder on the call \<^verbatim>\<open>f(1, 2, x=3)\<close>\<close>

text \<open>
  C3. Binding the call \<^verbatim>\<open>f(1, 2, x=3)\<close> against the declared parameters
  \<^verbatim>\<open>(a, x, b='d')\<close> succeeds with \<^verbatim>\<open>a\<close> bound to the first positional argument,
  \<^verbatim>\<open>b\<close> to the second and \<^verbatim>\<open>x\<close> to the keyword argument, and leaves no extra
  argument; this holds whichever of the three parameters are marked mandatory and for all
  argument expressions.
\<close>

theorem bind_two_positionals_and_keyword:
  "ParseCallParamsImpl
     [\<lparr>name = ''a'', mandatory = ma, defaultVal = EmptyValue\<rparr>,
      \<lparr>name = ''x'', mandatory = mx, defaultVal = EmptyValue\<rparr>,
      \<lparr>name = ''b'', mandatory = mb, defaultVal = StringValue ''d''\<rparr>]
     \<lparr>kwParams = [''x'' \<mapsto> e3], posParams = [e1, e2]\<rparr>
   = Inr (\<lparr>args = [''a'' \<mapsto> e1, ''b'' \<mapsto> e2, ''x'' \<mapsto> e3],
          extraKwArgs = Map.empty, extraPosArgs = []\<rparr>, True)"
  by (cases ma; cases mx; cases mb; simp add: binder_eval; auto simp: fun_eq_iff)

section \<open>Success of the binder and the mandatory parameters\<close>

text \<open>
  C4, as stated, fails for a declared parameter that is marked mandatory and named
  \<^verbatim>\<open>*args\<close>: its slot is \<^verbatim>\<open>Ignored\<close>, so the binder reports success although
  nothing is bound under that name.
\<close>

theorem binder_success_mandatory_counterexample:
  "ParseCallParamsImpl
     [\<lparr>name = ''*args'', mandatory = True, defaultVal = EmptyValue\<rparr>]
     \<lparr>kwParams = Map.empty, posParams = []\<rparr>
   = Inr (\<lparr>args = Map.empty, extraKwArgs = Map.empty, extraPosArgs = []\<rparr>, True)"
  by (simp add: binder_eval)

text \<open>
  C4, amended. Whenever the binder returns, for every declared parameter that is marked
  mandatory and is not one of the placeholders \<^verbatim>\<open>*args\<close> and \<^verbatim>\<open>**kwargs\<close>: if the
  binder reports success the parameter has a binding in \<^verbatim>\<open>args\<close>; conversely, if it
  has no binding in \<^verbatim>\<open>args\<close> the binder reports failure.
\<close>

theorem binder_success_binds_mandatory:
  assumes r: "ParseCallParamsImpl argInfos params = Inr (parsed, ok)"
    and a: "a \<in> set argInfos" "mandatory a" "name a \<noteq> ''*args''" "name a \<noteq> ''**kwargs''"
  shows "(ok \<longrightarrow> args parsed (name a) \<noteq> None) \<and> (args parsed (name a) = None \<longrightarrow> \<not> ok)"
proof -
  have "ok \<longrightarrow> args parsed (name a) \<noteq> None"
  proof
    assume ok
    from r obtain ai res fm pnf s eaten ai' res' where
      inv: "kw_inv argInfos params (ai, res, length argInfos, fm, pnf)"
      and mp: "MapPositional (posParams params) eaten 0 (int s) ai res = Inr (ai', res')"
      and fd: "FillDefaults ai' res' True = Inr (args parsed, ok)"
      by (rule ParseCallParamsImpl_Inr)
    have b: "bound_inv argInfos ai' res'"
      using kw_inv_bound_inv[OF inv] mp by (rule MapPositional_bound_inv)
    obtain j where j: "j < length argInfos" "argInfos ! j = a"
      using a(1) by (auto simp: in_set_conv_nth)
    have len: "length ai' = length argInfos" using b by (simp add: bound_inv_def)
    have np: "\<not> placeholder (name a)" using a(3,4) by (simp add: placeholder_def)
    from b j len np a(2) have st: "state (ai' ! j) \<noteq> Ignored" "state (ai' ! j) \<noteq> NotFound"
      and bnd: "state (ai' ! j) = Keyword \<or> state (ai' ! j) = Positional \<longrightarrow> res' (name a) \<noteq> None"
      unfolding bound_inv_def by auto
    have "ai' ! j \<in> set ai'" using j len by simp
    then have "state (ai' ! j) \<noteq> NotFoundMandatory"
      using FillDefaults_props[OF fd] \<open>ok\<close> by simp
    then have "state (ai' ! j) = Keyword \<or> state (ai' ! j) = Positional"
      using st by (cases "state (ai' ! j)") simp_all
    then have "res' (name a) \<noteq> None" using bnd by simp
    then show "args parsed (name a) \<noteq> None" using FillDefaults_props[OF fd] by simp
  qed
  then show ?thesis by blast
qed

theorem binder_success_binds_mandatory_witness:
  "(ParseCallParamsImpl
      [\<lparr>name = ''stop'', mandatory = True, defaultVal = EmptyValue\<rparr>]
      \<lparr>kwParams = Map.empty, posParams = [ConstantExpression (IntValue 3)]\<rparr>
    = Inr (\<lparr>args = [''stop'' \<mapsto> ConstantExpression (IntValue 3)],
           extraKwArgs = Map.empty, extraPosArgs = []\<rparr>, True)) \<and>
   args \<lparr>args = [''stop'' \<mapsto> ConstantExpression (IntValue 3)],
         extraKwArgs = Map.empty, extraPosArgs = []\<rparr> ''stop'' \<noteq> None \<and>
   (ParseCallParamsImpl
      [\<lparr>name = ''stop'', mandatory = True, defaultVal = EmptyValue\<rparr>]
      \<lparr>kwParams = Map.empty, posParams = []\<rparr>
    = Inr (\<lparr>args = Map.empty, extraKwArgs = Map.empty, extraPosArgs = []\<rparr>, False))"
proof -
  have run: "ParseCallParamsImpl
      [\<lparr>name = ''stop'', mandatory = True, defaultVal = EmptyValue\<rparr>]
      \<lparr>kwParams = Map.empty, posParams = [ConstantExpression (IntValue 3)]\<rparr>
    = Inr (\<lparr>args = [''stop'' \<mapsto> ConstantExpression (IntValue 3)],
           extraKwArgs = Map.empty, extraPosArgs = []\<rparr>, True)"
    by (simp add: binder_eval; auto simp: fun_eq_iff)
  have fail: "ParseCallParamsImpl
      [\<lparr>name = ''stop'', mandatory = True, defaultVal = EmptyValue\<rparr>]
      \<lparr>kwParams = Map.empty, posParams = []\<rparr>
    = Inr (\<lparr>args = Map.empty, extraKwArgs = Map.empty, extraPosArgs = []\<rparr>, False)"
    by (simp add: binder_eval)
  have "args \<lparr>args = [''stop'' \<mapsto> ConstantExpression (IntValue 3)],
         extraKwArgs = Map.empty, extraPosArgs = []\<rparr>
          (name \<lparr>name = ''stop'', mandatory = True, defaultVal = EmptyValue\<rparr>) \<noteq> None"
    using binder_success_binds_mandatory[OF run, of "\<lparr>name = ''stop'', mandatory = True, defaultVal = EmptyValue\<rparr>"]
    by simp
  then show ?thesis using run fail by simp
qed

section \<open>\<^verbatim>\<open>loop.cycle\<close>\<close>

text \<open>
  C5. \<^verbatim>\<open>CallLoopCycle\<close> does not return a value on every input. With no positional
  argument it divides by zero; with \<^verbatim>\<open>loop\<close> bound to a value that is not a map adapter
  (here the integer 5) it dereferences the null pointer \<^verbatim>\<open>GetIf<MapAdapter>\<close> returned.
\<close>

theorem loop_cycle_aborts:
  "CallLoopCycle ext \<lparr>kwParams = Map.empty, posParams = []\<rparr>
     \<lparr>scopes = [[''loop'' \<mapsto> MapAdapter [(''index0'', IntValue 0)]]], effects = []\<rparr>
   = Inl DivisionByZero \<and>
   CallLoopCycle ext \<lparr>kwParams = Map.empty, posParams = [ConstantExpression (IntValue 1)]\<rparr>
     \<lparr>scopes = [[''loop'' \<mapsto> IntValue 5]], effects = []\<rparr>
   = Inl NullDereference"
  by (simp add: CallLoopCycle_def)

section \<open>The placeholders \<^verbatim>\<open>*args\<close> and \<^verbatim>\<open>**kwargs\<close>\<close>

text \<open>
  Whatever the declared parameters and the call parameters, the binder either returns or
  reads \<^verbatim>\<open>argsInfo\<close> out of range (in the increment expression of the window scan,
  when every slot from the start of the window on is bound by keyword and a positional
  argument is left); the iteration bound of the model is never reached.
\<close>

lemma binder_returns_or_reads_out_of_range:
  "ParseCallParamsImpl argInfos params = Inl IndexOutOfRange \<or>
   (\<exists>r. ParseCallParamsImpl argInfos params = Inr r)"
proof -
  let ?pos = "posParams params"
  obtain ai res fm pnf where
    r: "FindKwArgs argInfos params (replicate (length argInfos) ArgInfo_init, Map.empty, 0, -1, -1)
       = (ai, res, length argInfos, fm, pnf)"
    and inv: "kw_inv argInfos params (ai, res, length argInfos, fm, pnf)"
    by (rule FindKwArgs_result)
  from inv have len: "length ai = length argInfos" and links0: "links_ok ai (length argInfos)"
    by (auto simp: kw_inv_def)
  have links: "links_ok ai (length ai)" using links0 len by simp
  have b0: "bound_inv argInfos ai res" using inv by (rule kw_inv_bound_inv)
  let ?sw = "ScanWindow (2 * length argInfos + 2) ai (length ?pos) True (window_start fm) (window_start fm) 0"
  from ScanWindow_first(1)[OF links, of "length ?pos" "window_start fm"]
  have "?sw = Inl IndexOutOfRange \<or> scan_post ai (length ?pos) ?sw" unfolding len .
  then show ?thesis
  proof
    assume "?sw = Inl IndexOutOfRange"
    then have "ParseCallParamsImpl argInfos params = Inl IndexOutOfRange"
      unfolding ParseCallParamsImpl_unfold[OF r] by simp
    then show ?thesis by simp
  next
    assume "scan_post ai (length ?pos) ?sw"
    then obtain s e where sw: "?sw = Inr (s, e)" and e: "e \<le> length ?pos"
      unfolding scan_post_def by blast
    have infos: "\<forall>j<length ai. info (ai ! j) \<noteq> None"
      using b0 unfolding bound_inv_def by simp
    obtain ai' res' where mp: "MapPositional ?pos e 0 (int s) ai res = Inr (ai', res')"
      using MapPositional_total[OF infos e, of 0 "int s" res] by auto
    have b1: "bound_inv argInfos ai' res'" using b0 mp by (rule MapPositional_bound_inv)
    have infos': "\<forall>x\<in>set ai'. info x \<noteq> None"
      using b1 unfolding bound_inv_def by (auto simp: in_set_conv_nth)
    obtain res'' ok where fd: "FillDefaults ai' res' True = Inr (res'', ok)"
      using FillDefaults_total[OF infos', of res' True] by auto
    have "\<exists>r. ParseCallParamsImpl argInfos params = Inr r"
      unfolding ParseCallParamsImpl_unfold[OF r] sw by (simp add: mp fd)
    then show ?thesis by simp
  qed
qed

text \<open>
  C7. Let the declared parameters contain a slot named \<^verbatim>\<open>*args\<close> or \<^verbatim>\<open>**kwargs\<close>.
  Then, for every call, the binder returns, and in its result: nothing is bound under
  the two placeholder names, so these slots have taken neither a keyword nor a positional
  argument; every keyword argument that is not bound in \<^verbatim>\<open>args\<close>, in particular
  every one whose name is a placeholder name or no declared name, is in
  \<^verbatim>\<open>extraKwArgs\<close>; and the positional arguments split into a consumed prefix and
  \<^verbatim>\<open>extraPosArgs\<close>, the rest in the caller's order, where (the declared names being
  distinct) every consumed positional argument is bound to a declared parameter that is
  not a placeholder.
\<close>

theorem placeholders_take_no_argument:
  assumes ph: "\<exists>a\<in>set argInfos. name a = ''*args'' \<or> name a = ''**kwargs''"
  shows "\<exists>parsed ok. ParseCallParamsImpl argInfos params = Inr (parsed, ok) \<and>
      args parsed ''*args'' = None \<and> args parsed ''**kwargs'' = None \<and>
      (\<forall>k v. kwParams params k = Some v \<and> args parsed k = None \<longrightarrow> extraKwArgs parsed k = Some v) \<and>
      (\<forall>k v. kwParams params k = Some v \<and> (k = ''*args'' \<or> k = ''**kwargs'' \<or> k \<notin> name ` set argInfos)
          \<longrightarrow> extraKwArgs parsed k = Some v) \<and>
      (\<exists>n\<le>length (posParams params). extraPosArgs parsed = drop n (posParams params) \<and>
         (distinct (map name argInfos) \<longrightarrow>
            (\<forall>i<n. \<exists>a\<in>set argInfos. name a \<noteq> ''*args'' \<and> name a \<noteq> ''**kwargs'' \<and>
                      args parsed (name a) = Some (posParams params ! i))))"
proof -
  let ?pos = "posParams params"
  obtain ai res fm pnf where
    r: "FindKwArgs argInfos params (replicate (length argInfos) ArgInfo_init, Map.empty, 0, -1, -1)
       = (ai, res, length argInfos, fm, pnf)"
    and inv: "kw_inv argInfos params (ai, res, length argInfos, fm, pnf)"
    by (rule FindKwArgs_result)
  from inv have len: "length ai = length argInfos" and links0: "links_ok ai (length argInfos)"
    and fm: "fm = -1 \<or> (0 \<le> fm \<and> fm < int (length argInfos) \<and> state (ai ! nat fm) = NotFoundMandatory)"
    by (auto simp: kw_inv_def)
  have links: "links_ok ai (length ai)" using links0 len by simp
  have b0: "bound_inv argInfos ai res" using inv by (rule kw_inv_bound_inv)
  have stop: "\<exists>j\<ge>window_start fm. j < length ai \<and> state (ai ! j) \<noteq> Keyword \<and> state (ai ! j) \<noteq> Positional"
  proof (cases "fm = -1")
    case True
    from ph obtain j where j: "j < length argInfos" "placeholder (name (argInfos ! j))"
      by (auto simp: in_set_conv_nth placeholder_def)
    then have "state (ai ! j) = Ignored" using b0 len unfolding bound_inv_def by simp
    then show ?thesis using True j(1) len by (intro exI[of _ j]) (simp add: window_start_def)
  next
    case False
    then have "0 \<le> fm" "nat fm < length ai" "state (ai ! nat fm) = NotFoundMandatory"
      using fm len by auto
    then show ?thesis using False
      by (intro exI[of _ "nat fm"]) (simp add: window_start_def size_t_cast_def)
  qed
  have "scan_post ai (length ?pos)
          (ScanWindow (2 * length ai + 2) ai (length ?pos) True (window_start fm) (window_start fm) 0)"
    using stop by (rule ScanWindow_first(2)[OF links])
  then obtain s e where sw: "ScanWindow (2 * length argInfos + 2) ai (length ?pos) True
        (window_start fm) (window_start fm) 0 = Inr (s, e)"
    and e: "e \<le> length ?pos"
    and walk: "e = 0 \<or> (s < length ai \<and> unbound (ai ! s) \<and> walk_ok ai s e)"
    unfolding scan_post_def len by blast
  have infos: "\<forall>j<length ai. info (ai ! j) \<noteq> None"
    using b0 unfolding bound_inv_def by simp
  obtain ai' res' where mp: "MapPositional ?pos e 0 (int s) ai res = Inr (ai', res')"
    using MapPositional_total[OF infos e, of 0 "int s" res] by auto
  have b1: "bound_inv argInfos ai' res'" using b0 mp by (rule MapPositional_bound_inv)
  have infos': "\<forall>x\<in>set ai'. info x \<noteq> None"
    using b1 unfolding bound_inv_def by (auto simp: in_set_conv_nth)
  obtain res'' ok where fd: "FillDefaults ai' res' True = Inr (res'', ok)"
    using FillDefaults_total[OF infos', of res' True] by auto
  let ?parsed = "\<lparr>args = res'',
                  extraKwArgs = (\<lambda>k. case res'' k of Some _ \<Rightarrow> None | None \<Rightarrow> kwParams params k),
                  extraPosArgs = drop e ?pos\<rparr>"
  have result: "ParseCallParamsImpl argInfos params = Inr (?parsed, ok)"
    unfolding ParseCallParamsImpl_unfold[OF r] sw by (simp add: mp fd)
  have dom: "\<And>k. res'' k \<noteq> None \<Longrightarrow> \<not> placeholder k \<and> k \<in> name ` set argInfos"
    using args_dom[OF b1 fd] .
  have p1: "res'' ''*args'' = None" "res'' ''**kwargs'' = None"
  proof -
    show "res'' ''*args'' = None"
      using dom[of "''*args''"] by (cases "res'' ''*args''") (simp_all add: placeholder_def)
    show "res'' ''**kwargs'' = None"
      using dom[of "''**kwargs''"] by (cases "res'' ''**kwargs''") (simp_all add: placeholder_def)
  qed
  have p2: "\<forall>k v. kwParams params k = Some v \<and> args ?parsed k = None \<longrightarrow> extraKwArgs ?parsed k = Some v"
    by simp
  have p3: "\<forall>k v. kwParams params k = Some v \<and> (k = ''*args'' \<or> k = ''**kwargs'' \<or> k \<notin> name ` set argInfos)
          \<longrightarrow> extraKwArgs ?parsed k = Some v"
  proof (intro allI impI)
    fix k v assume a: "kwParams params k = Some v \<and> (k = ''*args'' \<or> k = ''**kwargs'' \<or> k \<notin> name ` set argInfos)"
    then have "res'' k = None" using dom[of k] by (cases "res'' k") (auto simp: placeholder_def)
    then show "extraKwArgs ?parsed k = Some v" using a by simp
  qed
  have p4: "\<forall>i<e. \<exists>a\<in>set argInfos. name a \<noteq> ''*args'' \<and> name a \<noteq> ''**kwargs'' \<and>
                      args ?parsed (name a) = Some (?pos ! i)"
    if d: "distinct (map name argInfos)"
  proof (intro allI impI)
    fix i assume i: "i < e"
    then have w: "walk_ok ai s e" using walk by auto
    have same: "\<forall>j<length ai. nextNotFound (ai ! j) = nextNotFound (ai ! j) \<and> info (ai ! j) = Some (argInfos ! j)"
      using b0 unfolding bound_inv_def by simp
    have m: "(\<forall>k. 0 \<le> k \<and> k < e \<longrightarrow>
         res' (name (argInfos ! walk_slot ai s k)) = Some (?pos ! k) \<and>
         state (ai' ! walk_slot ai s k) = Positional) \<and>
     (\<forall>key. (\<forall>k. 0 \<le> k \<and> k < e \<longrightarrow> name (argInfos ! walk_slot ai s k) \<noteq> key) \<longrightarrow> res' key = res key) \<and>
     (\<forall>j<length ai. state (ai ! j) = Positional \<longrightarrow> state (ai' ! j) = Positional) \<and>
     length ai' = length ai \<and>
     (\<forall>j<length ai. info (ai' ! j) = Some (argInfos ! j))"
      by (rule MapPositional_walk[OF links w e d len[symmetric] _ _ refl same _ _ mp]) simp_all
    let ?c = "walk_slot ai s i"
    note sp = walk_slot_props[OF w i]
    have cl: "?c < length argInfos" using sp(2) len by simp
    have bound: "res' (name (argInfos ! ?c)) = Some (?pos ! i)" "state (ai' ! ?c) = Positional"
      using m i by simp_all
    have len': "length ai' = length argInfos" using m len by simp
    have keep: "res'' (name (argInfos ! ?c)) = res' (name (argInfos ! ?c))"
    proof -
      have "\<forall>x\<in>set ai'. state x = NotFound \<longrightarrow> (\<forall>a. info x = Some a \<longrightarrow> name a \<noteq> name (argInfos ! ?c))"
      proof (intro ballI impI allI)
        fix x a assume x: "x \<in> set ai'" "state x = NotFound" "info x = Some a"
        then obtain j where j: "j < length ai'" "x = ai' ! j" by (auto simp: in_set_conv_nth)
        then have "a = argInfos ! j" using m x(3) len' len by simp
        moreover have "j \<noteq> ?c" using j x(2) bound(2) by auto
        ultimately show "name a \<noteq> name (argInfos ! ?c)"
          using distinct_names[OF d _ cl, of j] j(1) len' by simp
      qed
      then show ?thesis using FillDefaults_props[OF fd] by simp
    qed
    have "state (ai ! ?c) \<noteq> Ignored" using sp(3) by (auto simp: unbound_def)
    then have np: "\<not> placeholder (name (argInfos ! ?c))"
      using b0 sp(2) unfolding bound_inv_def by simp
    show "\<exists>a\<in>set argInfos. name a \<noteq> ''*args'' \<and> name a \<noteq> ''**kwargs'' \<and>
                      args ?parsed (name a) = Some (?pos ! i)"
      using cl np keep bound(1)
      by (intro bexI[of _ "argInfos ! ?c"]) (simp_all add: placeholder_def)
  qed
  have p5: "\<exists>n\<le>length ?pos. extraPosArgs ?parsed = drop n ?pos \<and>
         (distinct (map name argInfos) \<longrightarrow>
            (\<forall>i<n. \<exists>a\<in>set argInfos. name a \<noteq> ''*args'' \<and> name a \<noteq> ''**kwargs'' \<and>
                      args ?parsed (name a) = Some (?pos ! i)))"
    using e p4 by (intro exI[of _ e]) simp
  show ?thesis
    using result p1 p2 p3 p5 by (intro exI[of _ ?parsed] exI[of _ ok]) simp
qed

theorem placeholders_take_no_argument_witness:
  "(\<exists>a\<in>set [\<lparr>name = ''a'', mandatory = False, defaultVal = EmptyValue\<rparr>,
               \<lparr>name = ''*args'', mandatory = False, defaultVal = EmptyValue\<rparr>,
               \<lparr>name = ''**kwargs'', mandatory = False, defaultVal = EmptyValue\<rparr>].
       name a = ''*args'' \<or> name a = ''**kwargs'') \<and>
   (\<exists>parsed ok.
      ParseCallParamsImpl
        [\<lparr>name = ''a'', mandatory = False, defaultVal = EmptyValue\<rparr>,
         \<lparr>name = ''*args'', mandatory = False, defaultVal = EmptyValue\<rparr>,
         \<lparr>name = ''**kwargs'', mandatory = False, defaultVal = EmptyValue\<rparr>]
        \<lparr>kwParams = [''x'' \<mapsto> ConstantExpression (IntValue 3)],
         posParams = [ConstantExpression (IntValue 1), ConstantExpression (IntValue 2)]\<rparr>
      = Inr (parsed, ok) \<and>
      args parsed ''*args'' = None \<and> args parsed ''**kwargs'' = None \<and>
      extraKwArgs parsed ''x'' = Some (ConstantExpression (IntValue 3)))"
proof -
  let ?schema = "[\<lparr>name = ''a'', mandatory = False, defaultVal = EmptyValue\<rparr>,
               \<lparr>name = ''*args'', mandatory = False, defaultVal = EmptyValue\<rparr>,
               \<lparr>name = ''**kwargs'', mandatory = False, defaultVal = EmptyValue\<rparr>]"
  let ?params = "\<lparr>kwParams = [''x'' \<mapsto> ConstantExpression (IntValue 3)],
         posParams = [ConstantExpression (IntValue 1), ConstantExpression (IntValue 2)]\<rparr>"
  have h: "\<exists>a\<in>set ?schema. name a = ''*args'' \<or> name a = ''**kwargs''" by simp
  from placeholders_take_no_argument[OF h, of ?params]
  obtain parsed ok where p: "ParseCallParamsImpl ?schema ?params = Inr (parsed, ok)"
    "args parsed ''*args'' = None" "args parsed ''**kwargs'' = None"
    "\<forall>k v. kwParams ?params k = Some v \<and> (k = ''*args'' \<or> k = ''**kwargs'' \<or> k \<notin> name ` set ?schema)
          \<longrightarrow> extraKwArgs parsed k = Some v"
    by blast
  have "extraKwArgs parsed ''x'' = Some (ConstantExpression (IntValue 3))"
    using p(4) by simp
  then show ?thesis using h p(1,2,3) by blast
qed

section \<open>The filter \<^verbatim>\<open>replace\<close>\<close>

lemma replace_binds_three_positionals:
  "FilterBase_ParseParams ReplaceMode_schema
     \<lparr>kwParams = Map.empty, posParams = [e1, e2, e3]\<rparr>
   = Inr [''old'' \<mapsto> e1, ''new'' \<mapsto> e2, ''count'' \<mapsto> e3]"
  by (simp add: FilterBase_ParseParams_def andThen_def ReplaceMode_schema_def binder_eval IsEmpty_def)

lemma replace_filter_on_strings:
  "ReplaceFilter ext
     \<lparr>kwParams = Map.empty,
      posParams = [ConstantExpression (StringValue oldStr), ConstantExpression (StringValue newStr),
                   ConstantExpression (IntValue count)]\<rparr> src context
   = Inr (ReplaceString src oldStr newStr count, context)"
  by (simp add: ReplaceFilter_def replace_binds_three_positionals)
     (simp add: andThen_def Replace_def GetArgumentValue_def EvaluateOrEmpty_def
        ConstantExpression_def ConvertToInt_def GetAsSameString_def)

text \<open>
  C8. With a count other than 0 the filter calls \<^verbatim>\<open>replace_first\<close> that many times,
  each time searching from the start of the string, so text a replacement has inserted is
  matched again: \<^verbatim>\<open>"abcabc" | replace("a", "aa", 2)\<close> yields \<^verbatim>\<open>"aaabcabc"\<close>, whereas
  replacing the first two occurrences from left to right yields \<^verbatim>\<open>"aabcaabc"\<close>.
  The example of the claim, \<^verbatim>\<open>"abcabc" | replace("a", "X", 1)\<close>, does yield
  \<^verbatim>\<open>"Xbcabc"\<close>.
\<close>

theorem replace_with_count_rescans_inserted_text:
  "ReplaceFilter ext
     \<lparr>kwParams = Map.empty,
      posParams = [ConstantExpression (StringValue ''a''), ConstantExpression (StringValue ''aa''),
                   ConstantExpression (IntValue 2)]\<rparr> ''abcabc'' context
   = Inr (''aaabcabc'', context) \<and>
   replace_first_n 2 ''abcabc'' ''a'' ''aa'' = ''aabcaabc'' \<and>
   ReplaceFilter ext
     \<lparr>kwParams = Map.empty,
      posParams = [ConstantExpression (StringValue ''a''), ConstantExpression (StringValue ''X''),
                   ConstantExpression (IntValue 1)]\<rparr> ''abcabc'' context
   = Inr (''Xbcabc'', context)"
  by (simp add: replace_filter_on_strings ReplaceString_def replace_first_n.simps numeral_eq_Suc)

section \<open>The filter \<^verbatim>\<open>truncate\<close>\<close>

lemma ScanForward_run:
  "p \<le> length str \<Longrightarrow>
   ScanForward str leeway p =
     p + (if leeway < 0 then length (takeWhile isAlNum (drop p str))
          else min (length (takeWhile isAlNum (drop p str))) (nat leeway))"
proof (induction str leeway p rule: ScanForward.induct)
  case (1 str leeway p)
  show ?case
  proof (cases "leeway \<noteq> 0 \<and> p < length str \<and> isAlNum (str ! p)")
    case True
    then have d: "drop p str = str ! p # drop (Suc p) str"
      by (simp add: Cons_nth_drop_Suc)
    have ih: "ScanForward str (leeway - 1) (p + 1) =
       (p + 1) + (if leeway - 1 < 0 then length (takeWhile isAlNum (drop (p + 1) str))
          else min (length (takeWhile isAlNum (drop (p + 1) str))) (nat (leeway - 1)))"
      using 1 True by simp
    have "ScanForward str leeway p = ScanForward str (leeway - 1) (p + 1)"
      using True by (subst ScanForward.simps) simp
    then show ?thesis using True d ih by (auto simp: min_def)
  next
    case False
    then have s: "ScanForward str leeway p = p"
      by (subst ScanForward.simps) auto
    have "leeway = 0 \<or> takeWhile isAlNum (drop p str) = []"
    proof (cases "p < length str")
      case True
      then have "drop p str = str ! p # drop (Suc p) str" by (simp add: Cons_nth_drop_Suc)
      then show ?thesis using False True by auto
    next
      case False
      then show ?thesis using 1(2) by simp
    qed
    then show ?thesis using s by auto
  qed
qed

lemma ScanBackward_run:
  "p < length str \<Longrightarrow>
   ScanBackward str p = p - min p (length (takeWhile isAlNum (rev (take (Suc p) str))))"
proof (induction p)
  case 0
  then show ?case by simp
next
  case (Suc p)
  then have t: "take (Suc (Suc p)) str = take (Suc p) str @ [str ! Suc p]"
    by (simp add: take_Suc_conv_app_nth)
  show ?case using Suc t by (auto simp: min_def)
qed

lemma ScanForward_le:
  assumes "p \<le> length str"
  shows "ScanForward str leeway p \<le> length str"
proof -
  have "length (takeWhile isAlNum (drop p str)) \<le> length (drop p str)"
    by (rule length_takeWhile_le)
  then have "length (takeWhile isAlNum (drop p str)) \<le> length str - p" by simp
  moreover have "ScanForward str leeway p \<le> p + length (takeWhile isAlNum (drop p str))"
    unfolding ScanForward_run[OF assms] by simp
  ultimately show ?thesis using assms by linarith
qed

lemma TruncateString_words:
  assumes "0 \<le> len" "len < int (length src)"
  shows "TruncateString src len False endStr leeway =
     (let e = (case endStr of Some e \<Rightarrow> e | None \<Rightarrow> []);
          p = (if leeway \<noteq> 0 then ScanForward src leeway (nat len) else nat len)
      in if leeway \<noteq> 0 \<and> p = length src then Inr src
         else Inr (trim_right (take (if isAlNum (src ! p) then ScanBackward src p else p) src) @ e))"
proof -
  have "\<not> int (length src) \<le> len" "\<not> len < 0" using assms by simp_all
  then show ?thesis unfolding TruncateString_def Let_def by (simp only: if_False)
qed

lemma word_before:
  assumes "p < length src" "isAlNum (src ! p)"
  shows "length (takeWhile isAlNum (rev (take (Suc p) src)))
         = Suc (length (takeWhile isAlNum (rev (take p src))))"
  using assms by (simp add: take_Suc_conv_app_nth)

text \<open>
  The two loops in closed form, for \<^verbatim>\<open>killwords = false\<close> and a length inside the
  source: the forward scan passes the alphanumeric characters from index \<^verbatim>\<open>length\<close>
  on, at most \<^verbatim>\<open>leeway\<close> of them (all of them when \<^verbatim>\<open>leeway\<close> is negative, the
  counter never reaching zero); the backward scan stops on the first character that is not
  alphanumeric, or at the start of the string.
\<close>

lemma TruncateString_closed_form:
  assumes "0 \<le> len" "len < int (length src)"
  shows "TruncateString src len False endStr leeway =
     (let run = length (takeWhile isAlNum (drop (nat len) src));
          p = nat len + (if leeway < 0 then run else min (nat leeway) run);
          cut = (if isAlNum (src ! p)
                 then p - min p (Suc (length (takeWhile isAlNum (rev (take p src)))))
                 else p)
      in if p = length src then Inr src
         else Inr (trim_right (take cut src) @ (case endStr of Some e \<Rightarrow> e | None \<Rightarrow> [])))"
proof -
  have le: "nat len \<le> length src" and lt: "nat len < length src" using assms by simp_all
  define q where "q = (if leeway \<noteq> 0 then ScanForward src leeway (nat len) else nat len)"
  define e where "e = (case endStr of Some e \<Rightarrow> e | None \<Rightarrow> [])"
  define p where "p = nat len + (if leeway < 0 then length (takeWhile isAlNum (drop (nat len) src))
                          else min (nat leeway) (length (takeWhile isAlNum (drop (nat len) src))))"
  have qp: "q = p"
  proof (cases "leeway = 0")
    case True
    then show ?thesis unfolding q_def p_def by simp
  next
    case False
    then show ?thesis unfolding q_def p_def using ScanForward_run[OF le, of leeway]
      by (simp add: min.commute)
  qed
  have ple: "p \<le> length src" using ScanForward_le[OF le, of leeway] le qp unfolding q_def
    by (cases "leeway = 0") auto
  have zero: "leeway = 0 \<Longrightarrow> p < length src" using qp lt unfolding q_def by simp
  have a: "TruncateString src len False endStr leeway =
      (if leeway \<noteq> 0 \<and> p = length src then Inr src
         else Inr (trim_right (take (if isAlNum (src ! p) then ScanBackward src p else p) src) @ e))"
    unfolding TruncateString_words[OF assms] Let_def q_def[symmetric] e_def[symmetric] qp ..
  show ?thesis
  proof (cases "p = length src")
    case True
    then have "leeway \<noteq> 0" using zero by auto
    then show ?thesis using True a unfolding Let_def p_def[symmetric] by simp
  next
    case False
    then have pl: "p < length src" using ple by simp
    have "isAlNum (src ! p) \<Longrightarrow>
        ScanBackward src p = p - min p (Suc (length (takeWhile isAlNum (rev (take p src)))))"
      using ScanBackward_run[OF pl] word_before[OF pl] by simp
    then show ?thesis using False a unfolding Let_def p_def[symmetric] e_def[symmetric] by auto
  qed
qed

text \<open>
  Where the cut of the code and the cut the spec words (the start of the word) give the same
  result: when the scan ends outside a word, when the word begins the string, and when the
  character in front of the word is white space, which the trimming removes either way.
\<close>

lemma trim_right_space: "isSpace c \<Longrightarrow> trim_right (xs @ [c]) = trim_right xs"
  by (simp add: trim_right_def)

lemma TruncateString_meets_spec_wording:
  assumes p_def: "p = nat len + min (nat leeway) (length (takeWhile isAlNum (drop (nat len) src)))"
    and w_def: "w = length (takeWhile isAlNum (rev (take p src)))"
    and "0 \<le> len" "len < int (length src)" "0 \<le> leeway"
    and delim: "isAlNum (src ! p) \<Longrightarrow> w < p \<Longrightarrow> isSpace (src ! (p - Suc w))"
  shows "TruncateString src len False endStr leeway =
     Inr (Truncate_spec src (nat len) (case endStr of Some e \<Rightarrow> e | None \<Rightarrow> []) (nat leeway))"
proof -
  define e where "e = (case endStr of Some e \<Rightarrow> e | None \<Rightarrow> [])"
  have nl: "\<not> leeway < 0" using assms by simp
  have a: "TruncateString src len False endStr leeway =
      (if p = length src then Inr src
       else Inr (trim_right (take (if isAlNum (src ! p) then p - min p (Suc w) else p) src) @ e))"
    using TruncateString_closed_form[OF assms(3,4), of endStr leeway] nl
    by (simp add: Let_def p_def w_def e_def)
  have b: "Truncate_spec src (nat len) e (nat leeway) =
      (if p = length src then src
       else trim_right (take (if isAlNum (src ! p) then p - w else p) src) @ e)"
    by (simp add: Truncate_spec_def Let_def p_def w_def)
  have wle: "w \<le> p"
  proof -
    have "w \<le> length (rev (take p src))" unfolding w_def by (rule length_takeWhile_le)
    then show ?thesis by simp
  qed
  have ple: "p \<le> length src"
  proof -
    have "length (takeWhile isAlNum (drop (nat len) src)) \<le> length (drop (nat len) src)"
      by (rule length_takeWhile_le)
    then show ?thesis unfolding p_def using assms(4) by simp
  qed
  have "trim_right (take (p - min p (Suc w)) src) = trim_right (take (p - w) src)"
    if al: "isAlNum (src ! p)" and pl: "p \<noteq> length src"
  proof (cases "w < p")
    case True
    then have sp: "isSpace (src ! (p - Suc w))" using delim al by simp
    have lt: "p - Suc w < length src" using True ple by simp
    have "p - w = Suc (p - Suc w)" using True by simp
    then have "take (p - w) src = take (p - Suc w) src @ [src ! (p - Suc w)]"
      using lt by (simp add: take_Suc_conv_app_nth)
    then have "trim_right (take (p - w) src) = trim_right (take (p - Suc w) src)"
      using sp by (simp add: trim_right_space)
    moreover have "p - min p (Suc w) = p - Suc w" using True by simp
    ultimately show ?thesis by simp
  next
    case False
    then have "w = p" using wle by simp
    then show ?thesis by simp
  qed
  then show ?thesis unfolding a b e_def[symmetric] by auto
qed

text \<open>
  Outside these bounds: with a negative \<^verbatim>\<open>length\<close> the iterator
  \<^verbatim>\<open>str.begin() + length\<close> leaves the string; with a negative \<^verbatim>\<open>leeway\<close> the scan
  runs to the end of the word.
\<close>

lemma truncate_negative_length_leaves_string:
  "len < 0 \<Longrightarrow> TruncateString src len False endStr leeway = Inl IndexOutOfRange"
  by (simp add: TruncateString_def)

lemma truncate_negative_leeway_scans_whole_word:
  "TruncateString ''ab cd'' 1 False (Some ''...'') (- 1) = Inr ''ab...''"
  by (simp add: TruncateString_def ScanForward.simps isAlNum_def trim_right_def isSpace_def)

lemma truncate_binds_four_positionals:
  "FilterBase_ParseParams TruncateMode_schema
     \<lparr>kwParams = Map.empty, posParams = [e1, e2, e3, e4]\<rparr>
   = Inr [''length'' \<mapsto> e1, ''killwords'' \<mapsto> e2, ''end'' \<mapsto> e3, ''leeway'' \<mapsto> e4]"
  by (simp add: FilterBase_ParseParams_def andThen_def TruncateMode_schema_def binder_eval IsEmpty_def)

lemma truncate_without_arguments:
  "TruncateFilter ext \<lparr>kwParams = Map.empty, posParams = []\<rparr> src context =
     andThen (TruncateString src 255 False (Some ''...'') 5) (\<lambda>str. Inr (str, context))"
  by (simp add: TruncateFilter_def FilterBase_ParseParams_def TruncateMode_schema_def binder_eval
      IsEmpty_def andThen_def Truncate_def GetArgumentValue_def EvaluateOrEmpty_def
      ConstantExpression_def ConvertToInt_def ConvertToBool_def GetAsSameString_def)

lemma truncate_filter_on_constants:
  "TruncateFilter TracingExternals
     \<lparr>kwParams = Map.empty,
      posParams = [ConstantExpression (IntValue len), ConstantExpression (BoolValue killWords),
                   ConstantExpression (StringValue endStr), ConstantExpression (IntValue leeway)]\<rparr>
     src context
    = andThen (TruncateString src len killWords (Some endStr) leeway) (\<lambda>str. Inr (str, context))"
  by (simp add: TruncateFilter_def truncate_binds_four_positionals)
     (simp add: andThen_def Truncate_def GetArgumentValue_def EvaluateOrEmpty_def
        ConstantExpression_def ConvertToInt_def ConvertToBool_def GetAsSameString_def)

lemma truncate_the_quick_brown_fox:
  "TruncateString ''The quick brown fox'' 9 False (Some ''...'') 2 = Inr ''The quick...''"
  by (simp add: TruncateString_def ScanForward.simps isAlNum_def trim_right_def isSpace_def)

lemma truncate_foo_bar_baz:
  "TruncateString ''foo,bar baz'' 6 False (Some ''...'') 0 = Inr ''foo...''"
proof -
  have "ScanBackward ''foo,bar baz'' 6 = 3"
    by (simp add: eval_nat_numeral isAlNum_def)
  then show ?thesis
    by (simp add: TruncateString_def isAlNum_def trim_right_def isSpace_def)
qed

text \<open>
  C6, as stated, fails twice. First in its example: on \<^verbatim>\<open>"The quick brown fox"\<close> the
  filter \<^verbatim>\<open>truncate(9, false, "...", 2)\<close> yields \<^verbatim>\<open>"The quick..."\<close>, not
  \<^verbatim>\<open>"The..."\<close>; the character at index 9 is the space after \<^verbatim>\<open>quick\<close>, so the
  forward scan stops at once on a word boundary, and the algorithm the claim itself words
  yields \<^verbatim>\<open>"The quick..."\<close> too. Second in the backward scan: it stops on the character
  in front of the word, not on the start of the word, and that character is erased with the
  word. On \<^verbatim>\<open>"foo,bar baz"\<close> the filter \<^verbatim>\<open>truncate(6, false, "...", 0)\<close> yields
  \<^verbatim>\<open>"foo..."\<close>, where a cut at the start of the word \<^verbatim>\<open>bar\<close> yields
  \<^verbatim>\<open>"foo,..."\<close>.
\<close>

theorem truncate_example_counterexample:
  "TruncateFilter TracingExternals
     \<lparr>kwParams = Map.empty,
      posParams = [ConstantExpression (IntValue 9), ConstantExpression (BoolValue False),
                   ConstantExpression (StringValue ''...''), ConstantExpression (IntValue 2)]\<rparr>
     ''The quick brown fox'' \<lparr>scopes = [], effects = []\<rparr>
   = Inr (''The quick...'', \<lparr>scopes = [], effects = []\<rparr>) \<and>
   Truncate_spec ''The quick brown fox'' 9 ''...'' 2 = ''The quick...'' \<and>
   TruncateFilter TracingExternals
     \<lparr>kwParams = Map.empty,
      posParams = [ConstantExpression (IntValue 6), ConstantExpression (BoolValue False),
                   ConstantExpression (StringValue ''...''), ConstantExpression (IntValue 0)]\<rparr>
     ''foo,bar baz'' \<lparr>scopes = [], effects = []\<rparr>
   = Inr (''foo...'', \<lparr>scopes = [], effects = []\<rparr>) \<and>
   Truncate_spec ''foo,bar baz'' 6 ''...'' 0 = ''foo,...''"
proof -
  have a: "Truncate_spec ''The quick brown fox'' 9 ''...'' 2 = ''The quick...''"
    by (simp add: Truncate_spec_def isAlNum_def trim_right_def isSpace_def)
  have b: "Truncate_spec ''foo,bar baz'' 6 ''...'' 0 = ''foo,...''"
    by (simp add: Truncate_spec_def isAlNum_def trim_right_def isSpace_def)
  show ?thesis
    by (simp add: truncate_filter_on_constants truncate_the_quick_brown_fox truncate_foo_bar_baz
          andThen_def a b)
qed

text \<open>
  C6, amended. The truncate filter has the defaults length = 255, killwords = false,
  end = \<^verbatim>\<open>"..."\<close> and leeway = 5. A source not longer than \<^verbatim>\<open>length\<close> is returned
  unchanged. With killwords = false, \<^verbatim>\<open>length\<close> and \<^verbatim>\<open>leeway\<close> not negative and a
  longer source: scan forward from index \<^verbatim>\<open>length\<close> over at most \<^verbatim>\<open>leeway\<close>
  alphanumeric characters; return the whole string if its end is reached; if the scan ends
  inside a word, go back to the character in front of the word (to the start of the string
  if the word begins it); erase from there to the end, trim on the right and append
  \<^verbatim>\<open>end\<close>. In particular \<^verbatim>\<open>"The quick brown fox" | truncate(9, false, "...", 2)\<close>
  yields \<^verbatim>\<open>"The quick..."\<close>.
\<close>

theorem truncate_defaults_and_word_boundary:
  "(\<forall>ext src context.
      TruncateFilter ext \<lparr>kwParams = Map.empty, posParams = []\<rparr> src context =
        andThen (TruncateString src 255 False (Some ''...'') 5) (\<lambda>str. Inr (str, context))) \<and>
   (\<forall>src len killWords endStr leeway.
      int (length src) \<le> len \<longrightarrow> TruncateString src len killWords endStr leeway = Inr src) \<and>
   (\<forall>src len endStr leeway.
      0 \<le> len \<and> len < int (length src) \<and> 0 \<le> leeway \<longrightarrow>
      TruncateString src len False endStr leeway =
        (let p = nat len + min (nat leeway) (length (takeWhile isAlNum (drop (nat len) src)));
             cut = (if isAlNum (src ! p)
                    then p - min p (Suc (length (takeWhile isAlNum (rev (take p src)))))
                    else p)
         in if p = length src then Inr src
            else Inr (trim_right (take cut src) @ (case endStr of Some e \<Rightarrow> e | None \<Rightarrow> [])))) \<and>
   TruncateString ''The quick brown fox'' 9 False (Some ''...'') 2 = Inr ''The quick...''"
proof -
  have short: "\<forall>src len killWords endStr leeway.
      int (length src) \<le> len \<longrightarrow> TruncateString src len killWords endStr leeway = Inr src"
    by (simp add: TruncateString_def)
  have words: "\<forall>src len endStr leeway.
      0 \<le> len \<and> len < int (length src) \<and> 0 \<le> leeway \<longrightarrow>
      TruncateString src len False endStr leeway =
        (let p = nat len + min (nat leeway) (length (takeWhile isAlNum (drop (nat len) src)));
             cut = (if isAlNum (src ! p)
                    then p - min p (Suc (length (takeWhile isAlNum (rev (take p src)))))
                    else p)
         in if p = length src then Inr src
            else Inr (trim_right (take cut src) @ (case endStr of Some e \<Rightarrow> e | None \<Rightarrow> [])))"
  proof (intro allI impI)
    fix src :: string and len :: int and endStr :: "string option" and leeway :: int
    assume h: "0 \<le> len \<and> len < int (length src) \<and> 0 \<le> leeway"
    then have "\<not> leeway < 0" by simp
    then show "TruncateString src len False endStr leeway =
        (let p = nat len + min (nat leeway) (length (takeWhile isAlNum (drop (nat len) src)));
             cut = (if isAlNum (src ! p)
                    then p - min p (Suc (length (takeWhile isAlNum (rev (take p src)))))
                    else p)
         in if p = length src then Inr src
            else Inr (trim_right (take cut src) @ (case endStr of Some e \<Rightarrow> e | None \<Rightarrow> [])))"
      using TruncateString_closed_form[of len src endStr leeway] h by (simp add: Let_def)
  qed
  show ?thesis
    using truncate_without_arguments short words truncate_the_quick_brown_fox by blast
qed

theorem truncate_defaults_and_word_boundary_witness:
  "TruncateString ''The quick brown fox'' 30 False (Some ''...'') 5 = Inr ''The quick brown fox'' \<and>
   (0::int) \<le> 7 \<and> 7 < int (length ''The quick brown fox'') \<and> (0::int) \<le> 0 \<and>
   TruncateString ''The quick brown fox'' 7 False (Some ''...'') 0 = Inr ''The...''"
proof -
  have a: "TruncateString ''The quick brown fox'' 30 False (Some ''...'') 5 = Inr ''The quick brown fox''"
    using truncate_defaults_and_word_boundary by simp
  have h: "(0::int) \<le> 7 \<and> 7 < int (length ''The quick brown fox'') \<and> (0::int) \<le> 0" by simp
  then have b: "TruncateString ''The quick brown fox'' 7 False (Some ''...'') 0 =
        (let p = nat 7 + min (nat 0) (length (takeWhile isAlNum (drop (nat 7) ''The quick brown fox'')));
             cut = (if isAlNum (''The quick brown fox'' ! p)
                    then p - min p (Suc (length (takeWhile isAlNum (rev (take p ''The quick brown fox'')))))
                    else p)
         in if p = length ''The quick brown fox'' then Inr ''The quick brown fox''
            else Inr (trim_right (take cut ''The quick brown fox'') @ (case Some ''...'' of Some e \<Rightarrow> e | None \<Rightarrow> [])))"
    using truncate_defaults_and_word_boundary by blast
  have c: "TruncateString ''The quick brown fox'' 7 False (Some ''...'') 0 = Inr ''The...''"
    unfolding b by (simp add: isAlNum_def trim_right_def isSpace_def)
  show ?thesis using a h c by simp
qed


lemma truncate_killwords_sum_overflows:
  "TruncateString ''Hello'' 1 True (Some ''...'') (2 ^ 63 - 1) = Inr ''H...''"
  by (simp add: TruncateString_def int64_wrap_def)



section \<open>Calls through \<^verbatim>\<open>Evaluate\<close> and through \<^verbatim>\<open>Render\<close>\<close>

text \<open>
  C10. Let the target of a call expression evaluate to a value that resolves, directly or
  through its \<^verbatim>\<open>operator()\<close> subscript, to a callable whose kind is neither
  \<^verbatim>\<open>GlobalFunc\<close> nor \<^verbatim>\<open>UserCallable\<close> (and, when the value is not itself a callable,
  let it not be the identifier of a special function). Then \<^verbatim>\<open>Evaluate\<close> returns the
  empty value, in the context left by the two evaluations of the target: the body of the
  callable is not run. \<^verbatim>\<open>Render\<close> on the same call runs the body.
\<close>

theorem evaluate_does_not_invoke_other_kinds:
  assumes "m_valueRef values = Inr (fnVal, v1)"
    and "m_valueRef v1 = Inr (fnVal, v2)"
    and "ResolveCallable ext fnVal v1 = Some (kind, ty, body)"
    and "ResolveCallable ext fnVal v2 = Some (kind, ty, body)"
    and "kind \<noteq> GlobalFunc" and "kind \<noteq> UserCallable"
    and "GetIfCallable fnVal = None \<Longrightarrow>
           ConvertToInt ext fnVal InvalidFn \<noteq> RangeFn \<and> ConvertToInt ext fnVal InvalidFn \<noteq> LoopCycleFn"
  shows "CallExpression_Evaluate ext m_valueRef m_params values = Inr (EmptyValue, v2) \<and>
         CallExpression_Render ext m_valueRef m_params stream values =
           (if ty = Expression
            then andThen (ExpressionCallable ext body m_params v1) (\<lambda>(val, c). Inr (stream @ [val], c))
            else StatementCallable ext body m_params stream v1)"
proof -
  have fnId: "ConvertToInt ext fnVal InvalidFn \<noteq> RangeFn \<and> ConvertToInt ext fnVal InvalidFn \<noteq> LoopCycleFn"
  proof (cases "GetIfCallable fnVal")
    case None
    then show ?thesis using assms(7) by simp
  next
    case (Some c)
    then show ?thesis
      by (cases fnVal) (simp_all add: GetIfCallable_def ConvertToInt_def InvalidFn_def RangeFn_def LoopCycleFn_def)
  qed
  have "CallArbitraryFn ext m_valueRef m_params v1 = Inr (EmptyValue, v2)"
    using assms(2,4,5,6) by (simp add: CallArbitraryFn_def andThen_def)
  then have "CallExpression_Evaluate ext m_valueRef m_params values = Inr (EmptyValue, v2)"
    using assms(1) fnId by (simp add: CallExpression_Evaluate_def andThen_def Let_def)
  moreover have "CallExpression_Render ext m_valueRef m_params stream values =
           (if ty = Expression
            then andThen (ExpressionCallable ext body m_params v1) (\<lambda>(val, c). Inr (stream @ [val], c))
            else StatementCallable ext body m_params stream v1)"
    using assms(1,3) by (simp add: CallExpression_Render_def andThen_def)
  ultimately show ?thesis by simp
qed

theorem evaluate_does_not_invoke_other_kinds_witness:
  "CallExpression_Evaluate TracingExternals (ConstantExpression (Callable Macro Statement 0))
     \<lparr>kwParams = Map.empty, posParams = []\<rparr> \<lparr>scopes = [], effects = []\<rparr>
   = Inr (EmptyValue, \<lparr>scopes = [], effects = []\<rparr>) \<and>
   CallExpression_Render TracingExternals (ConstantExpression (Callable Macro Statement 0))
     \<lparr>kwParams = Map.empty, posParams = []\<rparr> [] \<lparr>scopes = [], effects = []\<rparr>
   = Inr ([], \<lparr>scopes = [], effects = [''called'']\<rparr>)"
  using evaluate_does_not_invoke_other_kinds
    [of "ConstantExpression (Callable Macro Statement 0)" "\<lparr>scopes = [], effects = []\<rparr>"
        "Callable Macro Statement 0" "\<lparr>scopes = [], effects = []\<rparr>" "\<lparr>scopes = [], effects = []\<rparr>"
        TracingExternals Macro Statement 0 "\<lparr>kwParams = Map.empty, posParams = []\<rparr>" "[]"]
  by (simp add: ConstantExpression_def ResolveCallable_def GetIfCallable_def TracingExternals_def)

end
